theory Spec2Isabelle
  imports Complex_Main "HOL-Library.Char_ord" "HOL-Library.List_Lexorder"
begin

section \<open>Strings\<close>

text \<open>
  A JavaScript string is modelled as a \<^typ>\<open>string\<close> whose characters are the code units
  U+0000 to U+00FF. On that range \<^verbatim>\<open>toLowerCase\<close> moves A to Z and the Latin-1
  capitals (U+00C0 to U+00DE without the multiplication sign U+00D7) up by 32, and the
  white space of \<^verbatim>\<open>trim\<close> and of the regular expression class \<^verbatim>\<open>\s\<close> is
  TAB, LF, VT, FF, CR, SPACE and NBSP.
\<close>

definition toLowerCase_char :: "char \<Rightarrow> char" where
  "toLowerCase_char c =
     (let n = (of_char c :: nat)
      in if (65 \<le> n \<and> n \<le> 90) \<or> (192 \<le> n \<and> n \<le> 222 \<and> n \<noteq> 215)
         then char_of (n + 32) else c)"

definition toLowerCase :: "string \<Rightarrow> string" where
  "toLowerCase s = map toLowerCase_char s"

definition is_space :: "char \<Rightarrow> bool" where
  "is_space c = ((of_char c :: nat) \<in> {9, 10, 11, 12, 13, 32, 160})"

definition trim :: "string \<Rightarrow> string" where
  "trim s = rev (dropWhile is_space (rev (dropWhile is_space s)))"

text \<open>\<^verbatim>\<open>s.replace(/\s+/g, '_')\<close>: every maximal run of white space becomes one underscore.\<close>

function replace_spaces :: "string \<Rightarrow> string" where
  "replace_spaces [] = []"
| "replace_spaces (c # cs) =
     (if is_space c then CHR ''_'' # replace_spaces (dropWhile is_space cs)
      else c # replace_spaces cs)"
  by pat_completeness auto
termination
  by (relation "measure length") (auto simp: length_dropWhile_le less_Suc_eq_le)

text \<open>
  \<^verbatim>\<open>normalizeEntityId(name) { return name.toLowerCase().trim().replace(/\s+/g, '_'); }\<close>
\<close>

definition normalizeEntityId :: "string \<Rightarrow> string" where
  "normalizeEntityId name = replace_spaces (trim (toLowerCase name))"

section \<open>Numbers\<close>

text \<open>
  A JavaScript number, like a \<^verbatim>\<open>REAL\<close> of SQLite, is an IEEE 754 binary64 value. A
  finite number is held as the real number it denotes, and a sum or a product of two
  numbers is the exact result rounded to the nearest binary64 value, a tie going to the
  value with the even significand. Comparisons and \<^verbatim>\<open>Math.max\<close> are exact. Infinity
  and NaN are not represented: the model covers the finite numbers and the computations
  whose results stay below \<open>2 ^ 1024\<close> in magnitude.
\<close>

definition round_half_even :: "real \<Rightarrow> int" where
  "round_half_even y =
     (let f = \<lfloor>y\<rfloor>
      in if y - of_int f < 1 / 2 then f
         else if 1 / 2 < y - of_int f then f + 1
         else if even f then f else f + 1)"

text \<open>
  The exponent \<open>e\<close> of the binade of a positive \<open>x\<close>, \<open>2 ^ e \<le> x < 2 ^ (e + 1)\<close>, kept
  within the exponents \<open>- 1022\<close> to \<open>1023\<close> of binary64 (below \<open>2 ^ - 1022\<close> the numbers
  are subnormal and share the exponent \<open>- 1022\<close>). It is found by halving or doubling
  \<open>x\<close>, at most 1023 times.
\<close>

fun binade :: "nat \<Rightarrow> real \<Rightarrow> int \<Rightarrow> int" where
  "binade 0 x e = e"
| "binade (Suc n) x e =
     (if x < 1 \<and> - 1022 < e then binade n (2 * x) (e - 1)
      else if 2 \<le> x \<and> e < 1023 then binade n (x / 2) (e + 1)
      else e)"

definition pow2 :: "int \<Rightarrow> real" where
  "pow2 k = (if 0 \<le> k then 2 ^ nat k else 1 / 2 ^ nat (- k))"

text \<open>
  Rounding to binary64: the significand has 53 bits, so in the binade of exponent \<open>e\<close>
  the representable numbers are the multiples of \<open>2 ^ (e - 52)\<close>.
\<close>

definition binary64_round :: "real \<Rightarrow> real" where
  "binary64_round x =
     (if x = 0 then 0
      else let q = pow2 (binade 1023 \<bar>x\<bar> 0 - 52);
               r = of_int (round_half_even (\<bar>x\<bar> / q)) * q
           in if 0 < x then r else - r)"

text \<open>\<^verbatim>\<open>x + y\<close> and \<^verbatim>\<open>x * y\<close> on numbers.\<close>

definition binary64_plus :: "real \<Rightarrow> real \<Rightarrow> real" where
  "binary64_plus x y = binary64_round (x + y)"

definition binary64_times :: "real \<Rightarrow> real \<Rightarrow> real" where
  "binary64_times x y = binary64_round (x * y)"


section \<open>Tables of the graph store\<close>

text \<open>
  The three tables of \<^verbatim>\<open>SCHEMA_SQL\<close>, each a list of rows in insertion (rowid) order.
  A \<^verbatim>\<open>datetime('now')\<close> reading is an integer clock value handed to the operation
  that takes it; a \<^verbatim>\<open>REAL\<close> column holds a finite number. A limit is a number of rows,
  a natural number.
\<close>

record triple =
  tid :: nat
  subject :: string
  predicate :: string
  object :: string
  confidence :: real
  source_exchange_id :: "string option"
  source_date :: string
  created_at :: int
  updated_at :: int
  agent_id :: string
  pending_resolution :: bool

record entity =
  eid :: string
  canonical_name :: string
  entity_type :: string
  first_seen :: int
  last_seen :: int
  mention_count :: nat
  aliases :: string
  metadata :: "string option"
  e_agent_id :: string

record cooccurrence =
  entity_a :: string
  entity_b :: string
  c_count :: nat
  c_last_seen :: int

text \<open>
  \<open>triples_seq\<close> is the \<^verbatim>\<open>AUTOINCREMENT\<close> counter of the triples table: the largest
  rowid ever handed out, which a delete does not lower.
\<close>

record store =
  triples :: "triple list"
  triples_seq :: nat
  entities :: "entity list"
  cooccurrences :: "cooccurrence list"

definition empty_store :: store where
  "empty_store = \<lparr>triples = [], triples_seq = 0, entities = [], cooccurrences = []\<rparr>"

subsection \<open>JavaScript defaults and SQL clauses\<close>

text \<open>\<^verbatim>\<open>x || d\<close> on an optional string: \<^verbatim>\<open>undefined\<close>, \<^verbatim>\<open>null\<close> and \<^verbatim>\<open>''\<close> give \<open>d\<close>.\<close>

definition or_string :: "string option \<Rightarrow> string \<Rightarrow> string" where
  "or_string x d = (case x of None \<Rightarrow> d | Some v \<Rightarrow> if v = [] then d else v)"

text \<open>\<^verbatim>\<open>x || d\<close> on an optional number: \<^verbatim>\<open>undefined\<close> and \<^verbatim>\<open>0\<close> give \<open>d\<close>.\<close>

definition or_real :: "real option \<Rightarrow> real \<Rightarrow> real" where
  "or_real x d = (case x of None \<Rightarrow> d | Some v \<Rightarrow> if v = 0 then d else v)"

definition or_nat :: "nat option \<Rightarrow> nat \<Rightarrow> nat" where
  "or_nat x d = (case x of None \<Rightarrow> d | Some v \<Rightarrow> if v = 0 then d else v)"

text \<open>\<^verbatim>\<open>sourceExchangeId || null\<close>\<close>

definition or_null :: "string option \<Rightarrow> string option" where
  "or_null x = (case x of None \<Rightarrow> None | Some v \<Rightarrow> if v = [] then None else Some v)"

text \<open>
  \<^verbatim>\<open>ORDER BY key DESC\<close>: rows with the larger key first. SQL leaves the order of rows
  with equal keys open; SQLite sorts the rows that the statement visits with the visiting
  number as a last key, so such rows keep the order in which they were visited. The
  argument \<open>rows\<close> is the list of the visited rows in that order: table order for a scan of
  the table and for a search of an index all of whose columns are bound, the order of the
  remaining columns of the index otherwise.
\<close>

definition order_by_desc :: "('a \<Rightarrow> int) \<Rightarrow> 'a list \<Rightarrow> 'a list" where
  "order_by_desc key rows = sort_key (\<lambda>r. - key r) rows"

text \<open>
  SQLite's \<^verbatim>\<open>LIKE\<close> with its default settings (no \<^verbatim>\<open>ESCAPE\<close>, no
  \<^verbatim>\<open>case_sensitive_like\<close> pragma, none of which the source sets): \<^verbatim>\<open>%\<close> matches any
  run of characters, \<^verbatim>\<open>_\<close> matches one character, and any other character matches
  itself, where the letters A to Z and a to z match without regard to case.
\<close>

definition ascii_lower :: "char \<Rightarrow> char" where
  "ascii_lower c =
     (let n = (of_char c :: nat) in if 65 \<le> n \<and> n \<le> 90 then char_of (n + 32) else c)"

fun like :: "string \<Rightarrow> string \<Rightarrow> bool" where
  "like [] [] = True"
| "like [] (c # s) = False"
| "like (p # ps) [] = (p = CHR ''%'' \<and> like ps [])"
| "like (p # ps) (c # s) =
     (if p = CHR ''%'' then like ps (c # s) \<or> like (p # ps) s
      else (p = CHR ''_'' \<or> ascii_lower p = ascii_lower c) \<and> like ps s)"

section \<open>GraphStore\<close>

subsection \<open>Entity registry\<close>

text \<open>
  \<^verbatim>\<open>_upsertEntity\<close>: \<^verbatim>\<open>INSERT INTO entities (id, canonical_name, entity_type, agent_id, aliases)
  VALUES (?, ?, ?, ?, '[]') ON CONFLICT(id) DO UPDATE SET last_seen = datetime('now'),
  mention_count = mention_count + 1\<close>. The conflict target is the primary key \<open>id\<close> alone.
\<close>

definition upsertEntity_stmt :: "entity list \<Rightarrow> string \<Rightarrow> string \<Rightarrow> string \<Rightarrow> string \<Rightarrow> int \<Rightarrow> entity list" where
  "upsertEntity_stmt rows i nm ty aid now =
     (if \<exists>e \<in> set rows. eid e = i
      then map (\<lambda>e. if eid e = i
                     then e\<lparr>last_seen := now, mention_count := mention_count e + 1\<rparr>
                     else e) rows
      else rows @ [\<lparr>eid = i, canonical_name = nm, entity_type = ty, first_seen = now,
                    last_seen = now, mention_count = 1, aliases = ''[]'', metadata = None,
                    e_agent_id = aid\<rparr>])"

text \<open>
  \<^verbatim>\<open>upsertEntity(name, type, agentId) { const id = this.normalizeEntityId(name);
  this._upsertEntity.run(id, name, type || 'CONCEPT', agentId || 'main'); return id; }\<close>
\<close>

definition upsertEntity :: "store \<Rightarrow> string \<Rightarrow> string option \<Rightarrow> string option \<Rightarrow> int \<Rightarrow> string \<times> store" where
  "upsertEntity st name type agentId now =
     (let i = normalizeEntityId name
      in (i, st\<lparr>entities := upsertEntity_stmt (entities st) i name
                  (or_string type ''CONCEPT'') (or_string agentId ''main'') now\<rparr>))"

definition getEntity :: "store \<Rightarrow> string \<Rightarrow> entity option" where
  "getEntity st i = find (\<lambda>e. eid e = i) (entities st)"

definition getEntityByName :: "store \<Rightarrow> string \<Rightarrow> string option \<Rightarrow> entity option" where
  "getEntityByName st name agentId =
     find (\<lambda>e. canonical_name e = name \<and> e_agent_id e = or_string agentId ''main'') (entities st)"

text \<open>
  \<^verbatim>\<open>SELECT * FROM entities WHERE canonical_name LIKE ? AND agent_id = ? LIMIT 10\<close>, run with
  \<^verbatim>\<open>prefix + '%'\<close> and \<^verbatim>\<open>agentId || 'main'\<close>.
\<close>

definition findEntitiesByPrefix :: "store \<Rightarrow> string \<Rightarrow> string option \<Rightarrow> entity list" where
  "findEntitiesByPrefix st prefix agentId =
     take 10 (filter (\<lambda>e. like (prefix @ ''%'') (canonical_name e)
                          \<and> e_agent_id e = or_string agentId ''main'') (entities st))"

subsection \<open>Triple store\<close>

definition findTriple :: "store \<Rightarrow> string \<Rightarrow> string \<Rightarrow> string \<Rightarrow> string \<Rightarrow> triple option" where
  "findTriple st s p ob aid =
     find (\<lambda>t. subject t = s \<and> predicate t = p \<and> object t = ob \<and> agent_id t = aid) (triples st)"

text \<open>
  \<^verbatim>\<open>UPDATE triples SET confidence = MAX(confidence, ?), updated_at = datetime('now')
  WHERE id = ?\<close>
\<close>

definition updateTripleConfidence :: "store \<Rightarrow> real \<Rightarrow> nat \<Rightarrow> int \<Rightarrow> store" where
  "updateTripleConfidence st c i now =
     st\<lparr>triples := map (\<lambda>t. if tid t = i
                              then t\<lparr>confidence := max (confidence t) c, updated_at := now\<rparr>
                              else t) (triples st)\<rparr>"

text \<open>The rowid an \<^verbatim>\<open>AUTOINCREMENT\<close> insert gets: one more than the largest ever used.\<close>

definition next_rowid :: "store \<Rightarrow> nat" where
  "next_rowid st = Suc (fold max (map tid (triples st)) (triples_seq st))"

definition insertTriple :: "store \<Rightarrow> string \<Rightarrow> string \<Rightarrow> string \<Rightarrow> real \<Rightarrow> string option \<Rightarrow> string
    \<Rightarrow> string \<Rightarrow> bool \<Rightarrow> int \<Rightarrow> nat \<times> store" where
  "insertTriple st s p ob c ex d aid pend now =
     (let i = next_rowid st
      in (i, st\<lparr>triples := triples st @
                    [\<lparr>tid = i, subject = s, predicate = p, object = ob, confidence = c,
                      source_exchange_id = ex, source_date = d, created_at = now,
                      updated_at = now, agent_id = aid, pending_resolution = pend\<rparr>],
                 triples_seq := i\<rparr>))"

text \<open>
  \<^verbatim>\<open>addTriple({subject, predicate, object, confidence, sourceExchangeId, sourceDate, agentId,
  pendingResolution})\<close>; \<open>today\<close> is \<^verbatim>\<open>new Date().toISOString().split('T')[0]\<close>.
\<close>

definition addTriple :: "store \<Rightarrow> string \<Rightarrow> string \<Rightarrow> string \<Rightarrow> real option \<Rightarrow> string option
    \<Rightarrow> string option \<Rightarrow> string option \<Rightarrow> bool \<Rightarrow> int \<Rightarrow> string \<Rightarrow> nat \<times> store" where
  "addTriple st subj pred obj conf sourceExchangeId sourceDate agentId pendingResolution now today =
     (let subjectId = normalizeEntityId subj;
          objectId = normalizeEntityId obj;
          aid = or_string agentId ''main''
      in case findTriple st subjectId pred objectId aid of
           Some existing \<Rightarrow>
             (tid existing, updateTripleConfidence st (or_real conf 1) (tid existing) now)
         | None \<Rightarrow>
             insertTriple st subjectId pred objectId (or_real conf 1) (or_null sourceExchangeId)
               (or_string sourceDate today) aid pendingResolution now)"

subsection \<open>Co-occurrence cache\<close>

text \<open>
  \<^verbatim>\<open>INSERT INTO cooccurrences (entity_a, entity_b, count, last_seen) VALUES (?, ?, 1,
  datetime('now')) ON CONFLICT(entity_a, entity_b) DO UPDATE SET count = count + 1,
  last_seen = datetime('now')\<close>
\<close>

definition upsertCooccurrence :: "store \<Rightarrow> string \<Rightarrow> string \<Rightarrow> int \<Rightarrow> store" where
  "upsertCooccurrence st a b now =
     st\<lparr>cooccurrences :=
          (if \<exists>c \<in> set (cooccurrences st). entity_a c = a \<and> entity_b c = b
           then map (\<lambda>c. if entity_a c = a \<and> entity_b c = b
                          then c\<lparr>c_count := c_count c + 1, c_last_seen := now\<rparr> else c)
                  (cooccurrences st)
           else cooccurrences st @
                  [\<lparr>entity_a = a, entity_b = b, c_count = 1, c_last_seen = now\<rparr>])\<rparr>"

text \<open>
  \<^verbatim>\<open>SELECT * FROM cooccurrences WHERE entity_a = ? OR entity_b = ? ORDER BY count DESC LIMIT ?\<close>,
  run with the normalized name twice and \<^verbatim>\<open>limit || 20\<close>.
\<close>

definition getCooccurrences :: "store \<Rightarrow> string \<Rightarrow> nat option \<Rightarrow> cooccurrence list" where
  "getCooccurrences st entityName limit =
     (let i = normalizeEntityId entityName
      in take (or_nat limit 20)
           (order_by_desc (\<lambda>c. int (c_count c))
              (filter (\<lambda>c. entity_a c = i \<or> entity_b c = i) (cooccurrences st))))"

subsection \<open>Reading triples\<close>

text \<open>
  \<^verbatim>\<open>SELECT * FROM triples WHERE subject = ? AND agent_id = ? ORDER BY updated_at DESC LIMIT ?\<close>
  and the same statement on \<^verbatim>\<open>object\<close>.
\<close>

definition getTriplesForSubject :: "store \<Rightarrow> string \<Rightarrow> string \<Rightarrow> nat \<Rightarrow> triple list" where
  "getTriplesForSubject st i aid lim' =
     take lim' (order_by_desc updated_at
       (filter (\<lambda>t. subject t = i \<and> agent_id t = aid) (triples st)))"

definition getTriplesForObject :: "store \<Rightarrow> string \<Rightarrow> string \<Rightarrow> nat \<Rightarrow> triple list" where
  "getTriplesForObject st i aid lim' =
     take lim' (order_by_desc updated_at
       (filter (\<lambda>t. object t = i \<and> agent_id t = aid) (triples st)))"

text \<open>
  The loop of \<^verbatim>\<open>getTriplesFor\<close> over \<^verbatim>\<open>[...asSubject, ...asObject]\<close>, with its two
  variables \<^verbatim>\<open>seen\<close> and \<^verbatim>\<open>result\<close>.
\<close>

fun dedup_loop :: "triple list \<Rightarrow> nat set \<Rightarrow> triple list \<Rightarrow> triple list" where
  "dedup_loop [] seen result = result"
| "dedup_loop (t # ts) seen result =
     (if tid t \<notin> seen then dedup_loop ts (insert (tid t) seen) (result @ [t])
      else dedup_loop ts seen result)"

definition getTriplesFor :: "store \<Rightarrow> string \<Rightarrow> string option \<Rightarrow> nat option \<Rightarrow> triple list" where
  "getTriplesFor st entityName agentId limit =
     (let i = normalizeEntityId entityName;
          aid = or_string agentId ''main'';
          lim' = or_nat limit 50;
          asSubject = getTriplesForSubject st i aid lim';
          asObject = getTriplesForObject st i aid lim'
      in dedup_loop (asSubject @ asObject) {} [])"

record stats =
  entityCount :: nat
  tripleCount :: nat
  recentEntities :: "entity list"
  topCooccurrences :: "cooccurrence list"

definition getStats :: "store \<Rightarrow> string option \<Rightarrow> stats" where
  "getStats st agentId =
     (let aid = or_string agentId ''main''
      in \<lparr>entityCount = length (filter (\<lambda>e. e_agent_id e = aid) (entities st)),
          tripleCount = length (filter (\<lambda>t. agent_id t = aid) (triples st)),
          recentEntities =
            take 10 (order_by_desc last_seen (filter (\<lambda>e. e_agent_id e = aid) (entities st))),
          topCooccurrences =
            take 10 (order_by_desc (\<lambda>c. int (c_count c)) (cooccurrences st))\<rparr>)"

text \<open>
  One optional condition of \<^verbatim>\<open>queryTriples\<close>: \<^verbatim>\<open>if (x) { conditions.push('col = ?') }\<close>
  constrains the column only when the filter is a non-empty string.
\<close>

definition condition :: "string option \<Rightarrow> (string \<Rightarrow> string) \<Rightarrow> string \<Rightarrow> bool" where
  "condition x f col = (case x of None \<Rightarrow> True | Some v \<Rightarrow> v = [] \<or> col = f v)"

definition present :: "string option \<Rightarrow> bool" where
  "present x = (case x of None \<Rightarrow> False | Some v \<Rightarrow> v \<noteq> [])"

text \<open>
  The order in which the statement of \<^verbatim>\<open>queryTriples\<close> visits the rows that match.
  With the indexes of \<^verbatim>\<open>SCHEMA_SQL\<close> (and no \<^verbatim>\<open>ANALYZE\<close> statistics, which the
  source never gathers) SQLite answers it as follows, by the conditions present:

  \<^item> none, or \<^verbatim>\<open>agent_id\<close> alone: a scan of the table;
  \<^item> \<^verbatim>\<open>subject\<close> and \<^verbatim>\<open>agent_id\<close> without \<^verbatim>\<open>predicate\<close> and \<^verbatim>\<open>object\<close>:
    \<^verbatim>\<open>idx_triples_subject(subject, agent_id)\<close>; \<^verbatim>\<open>object\<close> and \<^verbatim>\<open>agent_id\<close> without
    \<^verbatim>\<open>predicate\<close>: \<^verbatim>\<open>idx_triples_object(object, agent_id)\<close>; \<^verbatim>\<open>predicate\<close> and
    \<^verbatim>\<open>agent_id\<close> alone: \<^verbatim>\<open>idx_triples_predicate(predicate, agent_id)\<close>; \<^verbatim>\<open>predicate\<close>
    with \<^verbatim>\<open>subject\<close> or \<^verbatim>\<open>object\<close>: \<^verbatim>\<open>idx_triples_obj_pred(object, predicate)\<close> or
    \<^verbatim>\<open>idx_triples_subj_pred(subject, predicate)\<close>: in all these cases both columns of
    the index are bound, and the matching rows come in table order;
  \<^item> \<^verbatim>\<open>predicate\<close> alone: \<^verbatim>\<open>idx_triples_predicate\<close> with \<^verbatim>\<open>agent_id\<close> free, so the
    rows come by \<^verbatim>\<open>agent_id\<close>, then in table order;
  \<^item> \<^verbatim>\<open>subject\<close> or \<^verbatim>\<open>object\<close> (or both) without \<^verbatim>\<open>predicate\<close> and \<^verbatim>\<open>agent_id\<close>:
    \<^verbatim>\<open>idx_triples_subj_pred\<close> or \<^verbatim>\<open>idx_triples_obj_pred\<close> with \<^verbatim>\<open>predicate\<close> free, so
    the rows come by \<^verbatim>\<open>predicate\<close>, then in table order.

  Text is compared by the \<^verbatim>\<open>BINARY\<close> collation, the order of the code units here.
\<close>

definition visiting_order :: "string option \<Rightarrow> string option \<Rightarrow> string option \<Rightarrow> string option
    \<Rightarrow> triple list \<Rightarrow> triple list" where
  "visiting_order subj pred obj agentId rows =
     (if present agentId then rows
      else if present pred
        then (if present subj \<or> present obj then rows else sort_key agent_id rows)
        else (if present subj \<or> present obj then sort_key predicate rows else rows))"

definition queryTriples :: "store \<Rightarrow> string option \<Rightarrow> string option \<Rightarrow> string option
    \<Rightarrow> string option \<Rightarrow> nat option \<Rightarrow> triple list" where
  "queryTriples st subj pred obj agentId limit =
     take (or_nat limit 50)
       (order_by_desc updated_at
          (visiting_order subj pred obj agentId
             (filter (\<lambda>t. condition subj normalizeEntityId (subject t)
                          \<and> condition pred (\<lambda>v. v) (predicate t)
                          \<and> condition obj normalizeEntityId (object t)
                          \<and> condition agentId (\<lambda>v. v) (agent_id t)) (triples st))))"

text \<open>
  \<^verbatim>\<open>deleteTriplesByExchange(exchangeId) { return this._deleteTriplesByExchange.run(exchangeId); }\<close>
  with the statement \<^verbatim>\<open>DELETE FROM triples WHERE source_exchange_id = ?\<close>. What the
  method returns is the info object of \<^verbatim>\<open>run\<close>: \<^verbatim>\<open>changes\<close> is the number of rows
  the statement deleted, and \<^verbatim>\<open>lastInsertRowid\<close> is the rowid of the last row inserted
  on the connection, which a \<^verbatim>\<open>DELETE\<close> leaves as it is. That rowid belongs to the
  connection and not to the tables (it starts at 0 when the database is opened, and an
  insert into any of the three tables sets it), so it is handed in as \<open>lastRowid\<close>, like
  the clock.
\<close>

record run_info =
  changes :: nat
  lastInsertRowid :: nat

definition deleteTriplesByExchange :: "store \<Rightarrow> string \<Rightarrow> nat \<Rightarrow> run_info \<times> store" where
  "deleteTriplesByExchange st exchangeId lastRowid =
     (\<lparr>changes = length (filter (\<lambda>t. source_exchange_id t = Some exchangeId) (triples st)),
       lastInsertRowid = lastRowid\<rparr>,
      st\<lparr>triples := filter (\<lambda>t. source_exchange_id t \<noteq> Some exchangeId) (triples st)\<rparr>)"

subsection \<open>The batch write\<close>

text \<open>
  What the extractor hands to \<^verbatim>\<open>writeExchange\<close>: entities \<^verbatim>\<open>{name, type}\<close>, triples
  \<^verbatim>\<open>{subject, predicate, object, confidence}\<close> and pairs of names.
\<close>

record mention =
  ent_name :: string
  ent_type :: "string option"

record extracted_triple =
  x_subject :: string
  x_predicate :: string
  x_object :: string
  x_confidence :: "real option"

datatype error = SqliteError

text \<open>
  A storage failure is an exception thrown by the run of a statement. The statements a
  batch runs are numbered from 0 in the order of their execution, and \<open>fails n\<close> says
  that statement \<open>n\<close> throws. \<^verbatim>\<open>upsertEntity\<close> runs one statement, \<^verbatim>\<open>addTriple\<close> two
  (the lookup, then the update or the insert), a co-occurrence upsert one.
\<close>

fun register_entities :: "(nat \<Rightarrow> bool) \<Rightarrow> nat \<Rightarrow> store \<Rightarrow> mention list \<Rightarrow> string \<Rightarrow> int
    \<Rightarrow> error + (nat \<times> store)" where
  "register_entities fails n st [] aid now = Inr (n, st)"
| "register_entities fails n st (entity # rest) aid now =
     (if fails n then Inl SqliteError
      else register_entities fails (Suc n)
             (snd (upsertEntity st (ent_name entity) (ent_type entity) (Some aid) now))
             rest aid now)"

fun write_triples :: "(nat \<Rightarrow> bool) \<Rightarrow> nat \<Rightarrow> store \<Rightarrow> nat list \<Rightarrow> extracted_triple list
    \<Rightarrow> string option \<Rightarrow> string \<Rightarrow> string \<Rightarrow> int \<Rightarrow> string \<Rightarrow> error + (nat \<times> store \<times> nat list)" where
  "write_triples fails n st tripleIds [] sourceExchangeId date aid now today =
     Inr (n, st, tripleIds)"
| "write_triples fails n st tripleIds (triple # rest) sourceExchangeId date aid now today =
     (if fails n \<or> fails (Suc n) then Inl SqliteError
      else let (i, st') = addTriple st (x_subject triple) (x_predicate triple) (x_object triple)
                            (x_confidence triple) sourceExchangeId (Some date) (Some aid) False
                            now today
           in write_triples fails (Suc (Suc n)) st' (tripleIds @ [i]) rest
                sourceExchangeId date aid now today)"

text \<open>\<^verbatim>\<open>[aId, bId].sort()\<close>: the default order of strings, by code units.\<close>

definition sorted_pair :: "string \<Rightarrow> string \<Rightarrow> string \<times> string" where
  "sorted_pair aId bId = (if bId < aId then (bId, aId) else (aId, bId))"

fun update_cooccurrences :: "(nat \<Rightarrow> bool) \<Rightarrow> nat \<Rightarrow> store \<Rightarrow> (string \<times> string) list \<Rightarrow> int
    \<Rightarrow> error + store" where
  "update_cooccurrences fails n st [] now = Inr st"
| "update_cooccurrences fails n st ((a, b) # rest) now =
     (let aId = normalizeEntityId a;
          bId = normalizeEntityId b;
          sorted' = sorted_pair aId bId
      in if fails n then Inl SqliteError
         else update_cooccurrences fails (Suc n)
                (upsertCooccurrence st (fst sorted') (snd sorted') now) rest now)"

text \<open>
  \<^verbatim>\<open>db.transaction(fn)()\<close> of better-sqlite3: \<^verbatim>\<open>BEGIN\<close>, the body, \<^verbatim>\<open>COMMIT\<close>; when the
  body throws, \<^verbatim>\<open>ROLLBACK\<close> and the exception goes on to the caller.
\<close>

definition transaction :: "(store \<Rightarrow> error + ('a \<times> store)) \<Rightarrow> store \<Rightarrow> (error + 'a) \<times> store" where
  "transaction body st =
     (case body st of Inl e \<Rightarrow> (Inl e, st) | Inr (v, st') \<Rightarrow> (Inr v, st'))"

definition writeExchange_body :: "(nat \<Rightarrow> bool) \<Rightarrow> mention list \<Rightarrow> extracted_triple list
    \<Rightarrow> (string \<times> string) list \<Rightarrow> string \<Rightarrow> string option \<Rightarrow> string \<Rightarrow> int \<Rightarrow> string
    \<Rightarrow> store \<Rightarrow> error + (nat list \<times> store)" where
  "writeExchange_body fails ents trips coocs aid sourceExchangeId date now today st =
     (case register_entities fails 0 st ents aid now of
        Inl e \<Rightarrow> Inl e
      | Inr (n1, st1) \<Rightarrow>
          (case write_triples fails n1 st1 [] trips sourceExchangeId date aid now today of
             Inl e \<Rightarrow> Inl e
           | Inr (n2, st2, tripleIds) \<Rightarrow>
               (case update_cooccurrences fails n2 st2 coocs now of
                  Inl e \<Rightarrow> Inl e
                | Inr st3 \<Rightarrow> Inr (tripleIds, st3))))"

text \<open>
  \<^verbatim>\<open>writeExchange({entities, triples, cooccurrences, agentId, sourceExchangeId, sourceDate})\<close>;
  a missing list is the empty list (\<^verbatim>\<open>entities || []\<close>).
\<close>

definition writeExchange :: "store \<Rightarrow> mention list \<Rightarrow> extracted_triple list \<Rightarrow> (string \<times> string) list
    \<Rightarrow> string option \<Rightarrow> string option \<Rightarrow> string option \<Rightarrow> (nat \<Rightarrow> bool) \<Rightarrow> int \<Rightarrow> string
    \<Rightarrow> (error + nat list) \<times> store" where
  "writeExchange st ents trips coocs agentId sourceExchangeId sourceDate fails now today =
     (let aid = or_string agentId ''main'';
          date = or_string sourceDate today
      in transaction
           (writeExchange_body fails ents trips coocs aid sourceExchangeId date now today) st)"

text \<open>
  The batch as the specification describes it, for comparison with the code above: every
  entity is upserted, then every triple is added by \<open>addTriple\<close> and its id noted in
  input order, then every pair is normalized, put in order and upserted. A batch runs
  \<open>statement_count\<close> statements.
\<close>

definition upsert_all_entities :: "store \<Rightarrow> mention list \<Rightarrow> string \<Rightarrow> int \<Rightarrow> store" where
  "upsert_all_entities st ents aid now =
     foldl (\<lambda>s e. snd (upsertEntity s (ent_name e) (ent_type e) (Some aid) now)) st ents"

fun add_all_triples :: "store \<Rightarrow> extracted_triple list \<Rightarrow> string option \<Rightarrow> string \<Rightarrow> string
    \<Rightarrow> int \<Rightarrow> string \<Rightarrow> nat list \<times> store" where
  "add_all_triples st [] sourceExchangeId date aid now today = ([], st)"
| "add_all_triples st (t # ts) sourceExchangeId date aid now today =
     (let (i, st') = addTriple st (x_subject t) (x_predicate t) (x_object t) (x_confidence t)
                       sourceExchangeId (Some date) (Some aid) False now today;
          (ids, st'') = add_all_triples st' ts sourceExchangeId date aid now today
      in (i # ids, st''))"

definition upsert_all_cooccurrences :: "store \<Rightarrow> (string \<times> string) list \<Rightarrow> int \<Rightarrow> store" where
  "upsert_all_cooccurrences st coocs now =
     foldl (\<lambda>s (a, b). upsertCooccurrence s
                          (min (normalizeEntityId a) (normalizeEntityId b))
                          (max (normalizeEntityId a) (normalizeEntityId b)) now) st coocs"

definition statement_count :: "mention list \<Rightarrow> extracted_triple list \<Rightarrow> (string \<times> string) list \<Rightarrow> nat" where
  "statement_count ents trips coocs = length ents + 2 * length trips + length coocs"

section \<open>GraphSearcher\<close>

text \<open>
  The retrieval section of the configuration; the constructor reads
  \<^verbatim>\<open>config.maxResults || 20\<close>, \<^verbatim>\<open>config.minSharedEntities || 1\<close> and
  \<^verbatim>\<open>config.cooccurrenceBoost || 0.1\<close>. The literal \<^verbatim>\<open>0.1\<close> is the number nearest
  to one tenth.
\<close>

record retrieval_config =
  cfg_maxResults :: "nat option"
  cfg_minSharedEntities :: "nat option"
  cfg_cooccurrenceBoost :: "real option"

definition maxResults :: "retrieval_config \<Rightarrow> nat" where
  "maxResults config = or_nat (cfg_maxResults config) 20"

definition minSharedEntities :: "retrieval_config \<Rightarrow> nat" where
  "minSharedEntities config = or_nat (cfg_minSharedEntities config) 1"

definition cooccurrenceBoost :: "retrieval_config \<Rightarrow> real" where
  "cooccurrenceBoost config = or_real (cfg_cooccurrenceBoost config) (binary64_round (1 / 10))"

text \<open>
  \<^verbatim>\<open>_getTriplesByNormalizedId\<close>: \<^verbatim>\<open>SELECT * FROM triples WHERE (subject = ? OR object = ?)
  AND agent_id = ? ORDER BY updated_at DESC LIMIT ?\<close>. SQLite answers the disjunction by
  one search of \<^verbatim>\<open>idx_triples_subject(subject, agent_id)\<close> followed by one search of
  \<^verbatim>\<open>idx_triples_object(object, agent_id)\<close> that skips the rows already found: it visits
  the rows with that subject in table order, then the other rows with that object in table
  order.
\<close>

definition getTriplesByNormalizedId :: "store \<Rightarrow> string \<Rightarrow> string option \<Rightarrow> nat option \<Rightarrow> triple list" where
  "getTriplesByNormalizedId st normalizedId agentId limit =
     (let aid = or_string agentId ''main'';
          lim' = or_nat limit 50;
          bySubject = filter (\<lambda>t. subject t = normalizedId \<and> agent_id t = aid) (triples st);
          byObject = filter (\<lambda>t. object t = normalizedId \<and> agent_id t = aid
                                  \<and> subject t \<noteq> normalizedId) (triples st)
      in take lim' (order_by_desc updated_at (bySubject @ byObject)))"

text \<open>
  An entry of the map \<^verbatim>\<open>exchangeScores\<close>. The map is a list of pairs in insertion order,
  as a JavaScript \<^verbatim>\<open>Map\<close> iterates; the \<^verbatim>\<open>Set\<close> of shared entities is a list without
  repetition in insertion order.
\<close>

record score_entry =
  se_id :: string
  score :: real
  sharedEntities :: "string list"
  maxConfidence :: real
  newestDate :: "string option"

definition new_entry :: "string \<Rightarrow> score_entry" where
  "new_entry exchangeId =
     \<lparr>se_id = exchangeId, score = 0, sharedEntities = [], maxConfidence = 0, newestDate = None\<rparr>"

definition map_has :: "(string \<times> score_entry) list \<Rightarrow> string \<Rightarrow> bool" where
  "map_has m k = (k \<in> set (map fst m))"

text \<open>\<^verbatim>\<open>if (!exchangeScores.has(exchangeId)) exchangeScores.set(exchangeId, {...})\<close>\<close>

definition ensure_entry :: "(string \<times> score_entry) list \<Rightarrow> string \<Rightarrow> (string \<times> score_entry) list" where
  "ensure_entry m k = (if map_has m k then m else m @ [(k, new_entry k)])"

text \<open>The entry that \<^verbatim>\<open>exchangeScores.get(exchangeId)\<close> returns, updated in place.\<close>

definition update_entry :: "(string \<times> score_entry) list \<Rightarrow> string \<Rightarrow> (score_entry \<Rightarrow> score_entry)
    \<Rightarrow> (string \<times> score_entry) list" where
  "update_entry m k f = map (\<lambda>(k', e). if k' = k then (k', f e) else (k', e)) m"

definition set_add :: "string list \<Rightarrow> string \<Rightarrow> string list" where
  "set_add xs x = (if x \<in> set xs then xs else xs @ [x])"

text \<open>
  \<^verbatim>\<open>triple.confidence || 1.0\<close> and \<^verbatim>\<open>cooc.count || 1\<close>. The count is an
  \<^verbatim>\<open>INTEGER\<close> of the table; JavaScript reads it as a number, in \<open>cooc_step\<close> below.
\<close>

definition confidence_or_1 :: "triple \<Rightarrow> real" where
  "confidence_or_1 t = (if confidence t = 0 then 1 else confidence t)"

definition count_or_1 :: "cooccurrence \<Rightarrow> nat" where
  "count_or_1 c = (if c_count c = 0 then 1 else c_count c)"

text \<open>
  \<^verbatim>\<open>if (!entry.newestDate || triple.source_date > entry.newestDate)
  entry.newestDate = triple.source_date\<close>
\<close>

definition bump_date :: "string option \<Rightarrow> string \<Rightarrow> string option" where
  "bump_date newest d =
     (case newest of
        None \<Rightarrow> Some d
      | Some n \<Rightarrow> if n = [] \<or> n < d then Some d else Some n)"

text \<open>The body of the loop over the triples of a query entity.\<close>

definition direct_step :: "string \<Rightarrow> (string \<times> score_entry) list \<Rightarrow> triple \<Rightarrow> (string \<times> score_entry) list" where
  "direct_step entity_name m t =
     (case or_null (source_exchange_id t) of
        None \<Rightarrow> m
      | Some exchangeId \<Rightarrow>
          update_entry (ensure_entry m exchangeId) exchangeId
            (\<lambda>entry. entry\<lparr>sharedEntities := set_add (sharedEntities entry) (toLowerCase entity_name),
                            score := binary64_plus (score entry) (confidence_or_1 t),
                            maxConfidence := max (maxConfidence entry) (confidence_or_1 t),
                            newestDate := bump_date (newestDate entry) (source_date t)\<rparr>))"

text \<open>The body of the loop over the triples of a co-occurring entity.\<close>

definition cooc_step :: "real \<Rightarrow> cooccurrence \<Rightarrow> (string \<times> score_entry) list \<Rightarrow> triple
    \<Rightarrow> (string \<times> score_entry) list" where
  "cooc_step boost cooc m t =
     (case or_null (source_exchange_id t) of
        None \<Rightarrow> m
      | Some exchangeId \<Rightarrow>
          update_entry (ensure_entry m exchangeId) exchangeId
            (\<lambda>entry. entry\<lparr>score := binary64_plus (score entry)
                                       (binary64_times boost (binary64_round (real (count_or_1 cooc)))),
                            newestDate := bump_date (newestDate entry) (source_date t)\<rparr>))"

text \<open>The co-occurring entity is whichever side is not the query entity.\<close>

definition coocEntityId :: "string \<Rightarrow> cooccurrence \<Rightarrow> string" where
  "coocEntityId entity_name cooc =
     (let normalizedName = normalizeEntityId entity_name
      in if entity_a cooc = normalizedName then entity_b cooc else entity_a cooc)"

definition cooc_loop :: "store \<Rightarrow> real \<Rightarrow> string \<Rightarrow> string \<Rightarrow> (string \<times> score_entry) list \<Rightarrow> cooccurrence
    \<Rightarrow> (string \<times> score_entry) list" where
  "cooc_loop st boost aid entity_name m cooc =
     foldl (cooc_step boost cooc) m
       (getTriplesByNormalizedId st (coocEntityId entity_name cooc) (Some aid) (Some 20))"

text \<open>The body of the loop over the query entities.\<close>

definition entity_step :: "store \<Rightarrow> real \<Rightarrow> string \<Rightarrow> (string \<times> score_entry) list \<Rightarrow> mention
    \<Rightarrow> (string \<times> score_entry) list" where
  "entity_step st boost aid m entity =
     (let triples' = getTriplesFor st (ent_name entity) (Some aid) (Some 100);
          m1 = foldl (direct_step (ent_name entity)) m triples';
          cooccurrences' = getCooccurrences st (ent_name entity) (Some 5)
      in foldl (cooc_loop st boost aid (ent_name entity)) m1 cooccurrences')"

text \<open>
  The merge of the gazetteer matches into the extracted entities, with the set
  \<^verbatim>\<open>entityNames\<close> of lower-cased names.
\<close>

fun merge_gazetteer :: "mention list \<Rightarrow> string set \<Rightarrow> mention list \<Rightarrow> mention list" where
  "merge_gazetteer queryEntities entityNames [] = queryEntities"
| "merge_gazetteer queryEntities entityNames (g # gs) =
     (if toLowerCase (ent_name g) \<notin> entityNames
      then merge_gazetteer (queryEntities @ [g]) (insert (toLowerCase (ent_name g)) entityNames) gs
      else merge_gazetteer queryEntities entityNames gs)"

definition merged_entities :: "mention list \<Rightarrow> mention list \<Rightarrow> mention list" where
  "merged_entities extracted gazetteered =
     merge_gazetteer extracted (set (map (\<lambda>e. toLowerCase (ent_name e)) extracted)) gazetteered"

record exchange_result =
  r_id :: string
  r_score :: real
  sharedEntityCount :: nat
  r_sharedEntities :: "string list"
  r_maxConfidence :: real
  r_date :: "string option"

record search_result =
  exchanges :: "exchange_result list"
  result_entities :: "mention list"

definition to_result :: "score_entry \<Rightarrow> exchange_result" where
  "to_result entry =
     \<lparr>r_id = se_id entry, r_score = score entry,
      sharedEntityCount = length (sharedEntities entry),
      r_sharedEntities = sharedEntities entry,
      r_maxConfidence = maxConfidence entry, r_date = newestDate entry\<rparr>"

text \<open>
  \<^verbatim>\<open>results.sort((a, b) => b.score - a.score)\<close>: descending by score; the sort of an
  array is stable, so results of equal score keep their order.
\<close>

definition sort_by_score :: "exchange_result list \<Rightarrow> exchange_result list" where
  "sort_by_score results = sort_key (\<lambda>r. - r_score r) results"

definition exchangeScores :: "retrieval_config \<Rightarrow> store \<Rightarrow> string \<Rightarrow> mention list
    \<Rightarrow> (string \<times> score_entry) list" where
  "exchangeScores config st aid queryEntities =
     foldl (entity_step st (cooccurrenceBoost config) aid) [] queryEntities"

text \<open>
  \<^verbatim>\<open>search(query, agentId, options)\<close>. The extractor is not part of the sources at hand:
  the lists \<open>extracted\<close> and \<open>gazetteered\<close> stand for what
  \<^verbatim>\<open>extractor.extractEntities(query, ...)\<close> and
  \<^verbatim>\<open>extractor.matchGazetteer(query, opts.knownEntities || [])\<close> return, and \<open>limit\<close> for
  \<^verbatim>\<open>options.limit\<close>.
\<close>

definition search :: "retrieval_config \<Rightarrow> store \<Rightarrow> mention list \<Rightarrow> mention list \<Rightarrow> string option
    \<Rightarrow> nat option \<Rightarrow> search_result" where
  "search config st extracted gazetteered agentId limit =
     (let aid = or_string agentId ''main'';
          limit' = or_nat limit (maxResults config);
          queryEntities = merged_entities extracted gazetteered
      in if queryEntities = [] then \<lparr>exchanges = [], result_entities = []\<rparr>
         else let scores = exchangeScores config st aid queryEntities;
                  results = map to_result
                    (filter (\<lambda>entry. minSharedEntities config \<le> length (sharedEntities entry))
                       (map snd scores))
              in \<lparr>exchanges = take limit' (sort_by_score results),
                  result_entities = queryEntities\<rparr>)"

subsection \<open>The loops of the search as one loop over hits\<close>

text \<open>
  A hit is one contribution to the score of an exchange: a triple touching a query entity
  (with the name of that entity), or a triple of an entity that co-occurs with a query
  entity (with the co-occurrence row).
\<close>

datatype hit = Direct string triple | Cooc cooccurrence triple

text \<open>The hits in the order in which the nested loops of \<open>search\<close> meet them.\<close>

definition direct_hits :: "store \<Rightarrow> string \<Rightarrow> mention \<Rightarrow> hit list" where
  "direct_hits st aid entity =
     map (Direct (ent_name entity)) (getTriplesFor st (ent_name entity) (Some aid) (Some 100))"

definition cooc_hits :: "store \<Rightarrow> string \<Rightarrow> mention \<Rightarrow> hit list" where
  "cooc_hits st aid entity =
     concat (map (\<lambda>cooc. map (Cooc cooc)
                    (getTriplesByNormalizedId st (coocEntityId (ent_name entity) cooc)
                       (Some aid) (Some 20)))
               (getCooccurrences st (ent_name entity) (Some 5)))"

definition all_hits :: "store \<Rightarrow> string \<Rightarrow> mention list \<Rightarrow> hit list" where
  "all_hits st aid queryEntities =
     concat (map (\<lambda>entity. direct_hits st aid entity @ cooc_hits st aid entity) queryEntities)"

fun hit_exchange :: "hit \<Rightarrow> string option" where
  "hit_exchange (Direct n t) = or_null (source_exchange_id t)"
| "hit_exchange (Cooc c t) = or_null (source_exchange_id t)"

text \<open>The two loop bodies of \<open>search\<close> as one step on a hit.\<close>

fun hit_update :: "real \<Rightarrow> hit \<Rightarrow> score_entry \<Rightarrow> score_entry" where
  "hit_update boost (Direct n t) entry =
     entry\<lparr>sharedEntities := set_add (sharedEntities entry) (toLowerCase n),
           score := binary64_plus (score entry) (confidence_or_1 t),
           maxConfidence := max (maxConfidence entry) (confidence_or_1 t),
           newestDate := bump_date (newestDate entry) (source_date t)\<rparr>"
| "hit_update boost (Cooc c t) entry =
     entry\<lparr>score := binary64_plus (score entry)
                      (binary64_times boost (binary64_round (real (count_or_1 c)))),
           newestDate := bump_date (newestDate entry) (source_date t)\<rparr>"

definition hit_step :: "real \<Rightarrow> (string \<times> score_entry) list \<Rightarrow> hit \<Rightarrow> (string \<times> score_entry) list" where
  "hit_step boost m h =
     (case hit_exchange h of
        None \<Rightarrow> m
      | Some exchangeId \<Rightarrow> update_entry (ensure_entry m exchangeId) exchangeId (hit_update boost h))"

subsection \<open>The search as the specification describes it\<close>

text \<open>
  The definitions of this subsection are written from the description of the search, not
  from its code. They use the rows of the tables, the normalization and the lower-casing
  of names, the arithmetic of numbers and, of the store, \<open>getTriplesFor\<close>, which the
  description names.
\<close>

text \<open>Of the elements of a list that have the same key, the first one only.\<close>

fun firsts_by :: "('a \<Rightarrow> 'k) \<Rightarrow> 'a list \<Rightarrow> 'a list" where
  "firsts_by key [] = []"
| "firsts_by key (x # xs) = x # filter (\<lambda>y. key y \<noteq> key x) (firsts_by key xs)"

text \<open>
  The merged entity list: the extracted mentions, followed by the gazetteer matches whose
  name, compared without regard to case, is not the name of an extracted mention; of
  several gazetteer matches with the same name the first occurrence wins.
\<close>

definition claimed_entities :: "mention list \<Rightarrow> mention list \<Rightarrow> mention list" where
  "claimed_entities extracted gazetteered =
     extracted
     @ filter (\<lambda>g. \<forall>e \<in> set extracted. toLowerCase (ent_name e) \<noteq> toLowerCase (ent_name g))
         (firsts_by (\<lambda>g. toLowerCase (ent_name g)) gazetteered)"

text \<open>
  The 5 top co-occurring entities of a query entity: the co-occurrence rows with the
  normalized name on either side, largest count first, and of each row the other side.
\<close>

definition claimed_cooccurrences :: "store \<Rightarrow> string \<Rightarrow> cooccurrence list" where
  "claimed_cooccurrences st name =
     take 5 (sort_key (\<lambda>c. - int (c_count c))
       (filter (\<lambda>c. entity_a c = normalizeEntityId name \<or> entity_b c = normalizeEntityId name)
          (cooccurrences st)))"

definition claimed_other_side :: "string \<Rightarrow> cooccurrence \<Rightarrow> string" where
  "claimed_other_side name c =
     (if entity_a c = normalizeEntityId name then entity_b c else entity_a c)"

text \<open>
  The 20 triples fetched for a co-occurring entity \<open>i\<close> (an id, not normalized again): the
  triples of the agent with \<open>i\<close> as subject or object, most recently updated first; among
  triples updated at the same time those with subject \<open>i\<close> come first.
\<close>

definition claimed_triples_of :: "store \<Rightarrow> string \<Rightarrow> string \<Rightarrow> triple list" where
  "claimed_triples_of st aid i =
     take 20 (sort_key (\<lambda>t. - updated_at t)
       (filter (\<lambda>t. subject t = i \<and> agent_id t = aid) (triples st)
        @ filter (\<lambda>t. subject t \<noteq> i \<and> object t = i \<and> agent_id t = aid) (triples st)))"

text \<open>
  The hits of a query: for each query entity in turn its direct hits, the up to 100
  triples of \<open>getTriplesFor\<close>, and then its co-occurrence hits.
\<close>

definition claimed_hits :: "store \<Rightarrow> string \<Rightarrow> mention list \<Rightarrow> hit list" where
  "claimed_hits st aid queryEntities =
     concat (map (\<lambda>entity.
         map (Direct (ent_name entity)) (getTriplesFor st (ent_name entity) (Some aid) (Some 100))
         @ concat (map (\<lambda>c. map (Cooc c)
                           (claimed_triples_of st aid (claimed_other_side (ent_name entity) c)))
                     (claimed_cooccurrences st (ent_name entity))))
       queryEntities)"

fun hit_triple :: "hit \<Rightarrow> triple" where
  "hit_triple (Direct n t) = t"
| "hit_triple (Cooc c t) = t"

text \<open>
  The exchange a hit counts for: the \<open>source_exchange_id\<close> that its triple carries; a
  triple without one (or with the empty string) counts for none.
\<close>

definition claimed_exchange :: "hit \<Rightarrow> string option" where
  "claimed_exchange h =
     (case source_exchange_id (hit_triple h) of
        None \<Rightarrow> None
      | Some x \<Rightarrow> if x = [] then None else Some x)"

definition claimed_hits_of :: "hit list \<Rightarrow> string \<Rightarrow> hit list" where
  "claimed_hits_of hs x = filter (\<lambda>h. claimed_exchange h = Some x) hs"

text \<open>
  What a hit adds to the score of its exchange: a direct hit the confidence of its triple,
  1.0 by default (when the triple has confidence 0); a co-occurrence hit the boost times
  the co-occurrence count (a count of 0, which no row written by the store has, is read
  as 1).
\<close>

fun claimed_contribution :: "real \<Rightarrow> hit \<Rightarrow> real" where
  "claimed_contribution boost (Direct n t) = (if confidence t = 0 then 1 else confidence t)"
| "claimed_contribution boost (Cooc c t) =
     binary64_times boost (binary64_round (if c_count c = 0 then 1 else real (c_count c)))"

text \<open>The score of an exchange: its contributions added up one after the other, from 0.\<close>

definition claimed_score :: "real \<Rightarrow> hit list \<Rightarrow> string \<Rightarrow> real" where
  "claimed_score boost hs x =
     foldl binary64_plus 0 (map (claimed_contribution boost) (claimed_hits_of hs x))"

text \<open>
  The shared entities of an exchange are the lower-cased names of the query entities with
  a direct hit for it, and its confidences are those of the triples of its direct hits:
  a co-occurrence hit adds to neither.
\<close>

fun claimed_name :: "hit \<Rightarrow> string list" where
  "claimed_name (Direct n t) = [toLowerCase n]"
| "claimed_name (Cooc c t) = []"

fun claimed_confidence :: "hit \<Rightarrow> real list" where
  "claimed_confidence (Direct n t) = [if confidence t = 0 then 1 else confidence t]"
| "claimed_confidence (Cooc c t) = []"

definition claimed_names :: "hit list \<Rightarrow> string \<Rightarrow> string list" where
  "claimed_names hs x = concat (map claimed_name (claimed_hits_of hs x))"

definition claimed_maxConfidence :: "hit list \<Rightarrow> string \<Rightarrow> real" where
  "claimed_maxConfidence hs x =
     Max (set (0 # concat (map claimed_confidence (claimed_hits_of hs x))))"

text \<open>The most recent \<open>source_date\<close> among the triples of all hits of the exchange.\<close>

definition claimed_date :: "hit list \<Rightarrow> string \<Rightarrow> string option" where
  "claimed_date hs x =
     (case map (\<lambda>h. source_date (hit_triple h)) (claimed_hits_of hs x) of
        [] \<Rightarrow> None
      | d # ds \<Rightarrow> Some (Max (set (d # ds))))"

definition claimed_result :: "real \<Rightarrow> hit list \<Rightarrow> string \<Rightarrow> exchange_result" where
  "claimed_result boost hs x =
     \<lparr>r_id = x,
      r_score = claimed_score boost hs x,
      sharedEntityCount = card (set (claimed_names hs x)),
      r_sharedEntities = firsts_by (\<lambda>n. n) (claimed_names hs x),
      r_maxConfidence = claimed_maxConfidence hs x,
      r_date = claimed_date hs x\<rparr>"

text \<open>The exchanges that the hits reach, in the order in which they are first reached.\<close>

definition claimed_exchange_ids :: "hit list \<Rightarrow> string list" where
  "claimed_exchange_ids hs = firsts_by (\<lambda>x. x) (List.map_filter claimed_exchange hs)"

text \<open>
  The search: the agent is \<^verbatim>\<open>main\<close> by default, the boost the number nearest to 0.1,
  the least number of shared entities 1 and the limit \<open>maxResults\<close>, itself 20 by
  default; a value of 0 or the empty string counts as missing. The exchanges reached are
  filtered by their number of distinct shared entities, sorted by descending score
  (exchanges of equal score staying in the order in which they were reached) and cut to
  the limit; the merged entity list is returned whole.
\<close>

definition claimed_search :: "retrieval_config \<Rightarrow> store \<Rightarrow> mention list \<Rightarrow> mention list
    \<Rightarrow> string option \<Rightarrow> nat option \<Rightarrow> search_result" where
  "claimed_search config st extracted gazetteered agentId limit =
     (let aid = (case agentId of None \<Rightarrow> ''main'' | Some a \<Rightarrow> if a = [] then ''main'' else a);
          boost = (case cfg_cooccurrenceBoost config of
                     None \<Rightarrow> 3602879701896397 / 36028797018963968
                   | Some b \<Rightarrow> if b = 0 then 3602879701896397 / 36028797018963968 else b);
          least = (case cfg_minSharedEntities config of
                     None \<Rightarrow> 1
                   | Some n \<Rightarrow> if n = 0 then 1 else n);
          most = (case cfg_maxResults config of
                    None \<Rightarrow> 20
                  | Some n \<Rightarrow> if n = 0 then 20 else n);
          limit' = (case limit of None \<Rightarrow> most | Some n \<Rightarrow> if n = 0 then most else n);
          queryEntities = claimed_entities extracted gazetteered;
          hs = claimed_hits st aid queryEntities
      in \<lparr>exchanges =
            take limit'
              (sort_key (\<lambda>r. - r_score r)
                 (filter (\<lambda>r. least \<le> sharedEntityCount r)
                    (map (claimed_result boost hs) (claimed_exchange_ids hs)))),
          result_entities = queryEntities\<rparr>)"

subsection \<open>The entry of an exchange after a list of hits\<close>

text \<open>
  The entry that the map \<^verbatim>\<open>exchangeScores\<close> must hold for the exchange \<open>x\<close> once the
  hits \<open>hs\<close> have been met.
\<close>

definition entry_of :: "real \<Rightarrow> hit list \<Rightarrow> string \<Rightarrow> score_entry" where
  "entry_of boost hs x =
     \<lparr>se_id = x,
      score = claimed_score boost hs x,
      sharedEntities = firsts_by (\<lambda>n. n) (claimed_names hs x),
      maxConfidence = claimed_maxConfidence hs x,
      newestDate = claimed_date hs x\<rparr>"

section \<open>Example data\<close>

text \<open>Rows and stores on which the theorems below are run.\<close>

definition row1 :: triple where
  "row1 = \<lparr>tid = 1, subject = ''alice'', predicate = ''visited'', object = ''paris'',
            confidence = 8 / 10, source_exchange_id = Some ''E1'', source_date = ''2024-01-01'',
            created_at = 1, updated_at = 1, agent_id = ''main'', pending_resolution = False\<rparr>"

definition row2 :: triple where
  "row2 = \<lparr>tid = 2, subject = ''bob'', predicate = ''knows'', object = ''alice'',
            confidence = 1, source_exchange_id = Some ''E2'', source_date = ''2024-01-02'',
            created_at = 2, updated_at = 5, agent_id = ''main'', pending_resolution = False\<rparr>"

definition row3 :: triple where
  "row3 = \<lparr>tid = 3, subject = ''alice'', predicate = ''likes'', object = ''alice'',
            confidence = 1 / 2, source_exchange_id = None, source_date = ''2024-01-03'',
            created_at = 3, updated_at = 3, agent_id = ''main'', pending_resolution = False\<rparr>"

definition alice_row :: entity where
  "alice_row = \<lparr>eid = ''alice'', canonical_name = ''Alice'', entity_type = ''PERSON'',
                 first_seen = 1, last_seen = 3, mention_count = 3, aliases = ''[]'',
                 metadata = None, e_agent_id = ''main''\<rparr>"

definition alice_paris :: cooccurrence where
  "alice_paris = \<lparr>entity_a = ''alice'', entity_b = ''paris'', c_count = 2, c_last_seen = 1\<rparr>"

definition store3 :: store where
  "store3 = \<lparr>triples = [row1, row2, row3], triples_seq = 3, entities = [alice_row],
              cooccurrences = [alice_paris]\<rparr>"

definition bob_row :: entity where
  "bob_row = \<lparr>eid = ''bob'', canonical_name = ''Bob'', entity_type = ''PERSON'',
               first_seen = 2, last_seen = 2, mention_count = 1, aliases = ''[]'',
               metadata = None, e_agent_id = ''other''\<rparr>"

definition store4 :: store where
  "store4 = \<lparr>triples = [row1, row2, row3], triples_seq = 3, entities = [alice_row, bob_row],
              cooccurrences = [alice_paris]\<rparr>"

definition batch_entities :: "mention list" where
  "batch_entities = [\<lparr>ent_name = ''Alice'', ent_type = Some ''PERSON''\<rparr>,
                     \<lparr>ent_name = ''Paris'', ent_type = Some ''PLACE''\<rparr>]"

definition batch_triples :: "extracted_triple list" where
  "batch_triples = [\<lparr>x_subject = ''Alice'', x_predicate = ''visited'', x_object = ''Paris'',
                     x_confidence = Some (8 / 10)\<rparr>]"

definition batch_pairs :: "(string \<times> string) list" where
  "batch_pairs = [(''Paris'', ''Alice'')]"

definition store_E1 :: store where
  "store_E1 =
     \<lparr>triples = [row1], triples_seq = 1,
      entities = [\<lparr>eid = ''alice'', canonical_name = ''Alice'', entity_type = ''PERSON'',
                   first_seen = 1, last_seen = 1, mention_count = 1, aliases = ''[]'',
                   metadata = None, e_agent_id = ''main''\<rparr>,
                  \<lparr>eid = ''paris'', canonical_name = ''Paris'', entity_type = ''PLACE'',
                   first_seen = 1, last_seen = 1, mention_count = 1, aliases = ''[]'',
                   metadata = None, e_agent_id = ''main''\<rparr>],
      cooccurrences = [\<lparr>entity_a = ''alice'', entity_b = ''paris'', c_count = 1,
                        c_last_seen = 1\<rparr>]\<rparr>"

text \<open>
  A store for the searcher: Alice visited Paris (exchange \<^verbatim>\<open>E1\<close>, confidence 0.8), Bob
  knows Carol (\<^verbatim>\<open>E2\<close>), Alice likes tea (\<^verbatim>\<open>E3\<close>); Alice co-occurs with Paris twice
  and with Bob three times.
\<close>

definition visited_row :: triple where
  "visited_row = \<lparr>tid = 1, subject = ''alice'', predicate = ''visited'', object = ''paris'',
            confidence = binary64_round (8 / 10), source_exchange_id = Some ''E1'',
            source_date = ''2024-01-01'', created_at = 1, updated_at = 1, agent_id = ''main'',
            pending_resolution = False\<rparr>"

definition knows_row :: triple where
  "knows_row = \<lparr>tid = 2, subject = ''bob'', predicate = ''knows'', object = ''carol'',
            confidence = 1, source_exchange_id = Some ''E2'', source_date = ''2024-01-04'',
            created_at = 4, updated_at = 4, agent_id = ''main'', pending_resolution = False\<rparr>"

definition likes_row :: triple where
  "likes_row = \<lparr>tid = 3, subject = ''alice'', predicate = ''likes'', object = ''tea'',
            confidence = 1 / 2, source_exchange_id = Some ''E3'', source_date = ''2024-01-05'',
            created_at = 5, updated_at = 5, agent_id = ''main'', pending_resolution = False\<rparr>"

definition alice_bob :: cooccurrence where
  "alice_bob = \<lparr>entity_a = ''alice'', entity_b = ''bob'', c_count = 3, c_last_seen = 4\<rparr>"

definition search_store :: store where
  "search_store = \<lparr>triples = [visited_row, knows_row, likes_row], triples_seq = 3,
                    entities = [], cooccurrences = [alice_paris, alice_bob]\<rparr>"

definition default_config :: retrieval_config where
  "default_config = \<lparr>cfg_maxResults = None, cfg_minSharedEntities = None,
                      cfg_cooccurrenceBoost = None\<rparr>"

definition strict_config :: retrieval_config where
  "strict_config = \<lparr>cfg_maxResults = None, cfg_minSharedEntities = Some 2,
                     cfg_cooccurrenceBoost = None\<rparr>"

definition alice_mention :: mention where
  "alice_mention = \<lparr>ent_name = ''Alice'', ent_type = Some ''PERSON''\<rparr>"

definition alice_capitals :: mention where
  "alice_capitals = \<lparr>ent_name = ''ALICE'', ent_type = Some ''PERSON''\<rparr>"

definition paris_mention :: mention where
  "paris_mention = \<lparr>ent_name = ''Paris'', ent_type = Some ''PLACE''\<rparr>"

definition paris_small :: mention where
  "paris_small = \<lparr>ent_name = ''paris'', ent_type = None\<rparr>"

definition carol_mention :: mention where
  "carol_mention = \<lparr>ent_name = ''Carol'', ent_type = Some ''PERSON''\<rparr>"

text \<open>
  A store on which rounding decides the ranking: exchange \<^verbatim>\<open>F2\<close> has one triple of
  confidence 0.3, exchange \<^verbatim>\<open>F1\<close> two triples of confidences 0.1 and 0.2.
\<close>

definition third_row :: triple where
  "third_row = \<lparr>tid = 1, subject = ''alice'', predicate = ''p'', object = ''x'',
            confidence = binary64_round (3 / 10), source_exchange_id = Some ''F2'',
            source_date = ''2024-02-03'', created_at = 3, updated_at = 3, agent_id = ''main'',
            pending_resolution = False\<rparr>"

definition tenth_row :: triple where
  "tenth_row = \<lparr>tid = 2, subject = ''alice'', predicate = ''p'', object = ''y'',
            confidence = binary64_round (1 / 10), source_exchange_id = Some ''F1'',
            source_date = ''2024-02-02'', created_at = 2, updated_at = 2, agent_id = ''main'',
            pending_resolution = False\<rparr>"

definition fifth_row :: triple where
  "fifth_row = \<lparr>tid = 3, subject = ''alice'', predicate = ''p'', object = ''z'',
            confidence = binary64_round (2 / 10), source_exchange_id = Some ''F1'',
            source_date = ''2024-02-01'', created_at = 1, updated_at = 1, agent_id = ''main'',
            pending_resolution = False\<rparr>"

definition rounding_store :: store where
  "rounding_store = \<lparr>triples = [third_row, tenth_row, fifth_row], triples_seq = 3,
                      entities = [], cooccurrences = []\<rparr>"

text \<open>
  A store with three triples updated at the same time, two with object \<^verbatim>\<open>x\<close> and the
  third with subject \<^verbatim>\<open>x\<close>; Alice co-occurs with \<^verbatim>\<open>x\<close> twice. The configuration sets
  the boost to 0.5 and the number of results to 2.
\<close>

definition tie_row1 :: triple where
  "tie_row1 = \<lparr>tid = 1, subject = ''carol'', predicate = ''p'', object = ''x'',
            confidence = 1, source_exchange_id = Some ''G1'', source_date = ''2024-03-01'',
            created_at = 1, updated_at = 1, agent_id = ''main'', pending_resolution = False\<rparr>"

definition tie_row2 :: triple where
  "tie_row2 = \<lparr>tid = 2, subject = ''carol'', predicate = ''q'', object = ''x'',
            confidence = 1, source_exchange_id = Some ''G2'', source_date = ''2024-03-02'',
            created_at = 1, updated_at = 1, agent_id = ''main'', pending_resolution = False\<rparr>"

definition tie_row3 :: triple where
  "tie_row3 = \<lparr>tid = 3, subject = ''x'', predicate = ''p'', object = ''carol'',
            confidence = 1, source_exchange_id = Some ''G3'', source_date = ''2024-03-03'',
            created_at = 1, updated_at = 1, agent_id = ''main'', pending_resolution = False\<rparr>"

definition alice_x :: cooccurrence where
  "alice_x = \<lparr>entity_a = ''alice'', entity_b = ''x'', c_count = 2, c_last_seen = 1\<rparr>"

definition tie_store :: store where
  "tie_store = \<lparr>triples = [tie_row1, tie_row2, tie_row3], triples_seq = 3,
                 entities = [], cooccurrences = [alice_x]\<rparr>"

definition tuned_config :: retrieval_config where
  "tuned_config = \<lparr>cfg_maxResults = Some 2, cfg_minSharedEntities = None,
                    cfg_cooccurrenceBoost = Some (1 / 2)\<rparr>"

section \<open>Properties of the normalization\<close>

lemma of_char_lt256: "(of_char c :: nat) < 256"
  by (cases c) (simp add: of_char_def)

lemma toLowerCase_char_idem: "toLowerCase_char (toLowerCase_char c) = toLowerCase_char c"
  using of_char_lt256[of c] by (auto simp: toLowerCase_char_def Let_def)

lemma is_space_toLowerCase_char: "is_space (toLowerCase_char c) = is_space c"
  using of_char_lt256[of c] by (auto simp: toLowerCase_char_def is_space_def Let_def)

lemma not_space_underscore: "\<not> is_space CHR ''_''"
  by (simp add: is_space_def)

lemma lower_underscore: "toLowerCase_char CHR ''_'' = CHR ''_''"
  by (simp add: toLowerCase_char_def)

lemma set_replace_spaces: "set (replace_spaces s) \<subseteq> {c \<in> set s. \<not> is_space c} \<union> {CHR ''_''}"
proof (induction s rule: replace_spaces.induct)
  case 1
  show ?case by simp
next
  case (2 c cs)
  show ?case
  proof (cases "is_space c")
    case True
    have "set (dropWhile is_space cs) \<subseteq> set cs" by (auto dest: set_dropWhileD)
    with 2(1)[OF True] True show ?thesis by auto
  next
    case False
    with 2(2)[OF False] show ?thesis by auto
  qed
qed

lemma replace_spaces_id: "\<forall>c \<in> set s. \<not> is_space c \<Longrightarrow> replace_spaces s = s"
  by (induction s) auto

lemma dropWhile_none: "\<forall>c \<in> set s. \<not> P c \<Longrightarrow> dropWhile P s = s"
  by (cases s) auto

lemma trim_id: "\<forall>c \<in> set s. \<not> is_space c \<Longrightarrow> trim s = s"
  by (simp add: trim_def dropWhile_none)

lemma toLowerCase_append: "toLowerCase (a @ b) = toLowerCase a @ toLowerCase b"
  by (simp add: toLowerCase_def)

lemma all_space_toLowerCase: "(\<forall>c\<in>set (toLowerCase s). is_space c) = (\<forall>c\<in>set s. is_space c)"
  by (simp add: toLowerCase_def is_space_toLowerCase_char)

lemma ex_nonspace_toLowerCase:
  "(\<exists>c\<in>set (toLowerCase s). \<not> is_space c) = (\<exists>c\<in>set s. \<not> is_space c)"
  by (simp add: toLowerCase_def is_space_toLowerCase_char)

lemma dropWhile_all: "\<forall>c\<in>set u. P c \<Longrightarrow> dropWhile P (u @ s) = dropWhile P s"
  by (induction u) auto

lemma dropWhile_some: "\<exists>c\<in>set a. \<not> P c \<Longrightarrow> dropWhile P (a @ s) = dropWhile P a @ s"
  by (induction a) auto

lemma trim_all_space:
  assumes "\<forall>c\<in>set s. is_space c"
  shows "trim s = []"
proof -
  have d: "dropWhile is_space s = []" using assms by simp
  show ?thesis unfolding trim_def d by simp
qed

lemma trim_surround:
  assumes "\<forall>c\<in>set u. is_space c" "\<forall>c\<in>set v. is_space c"
  shows "trim (u @ s @ v) = trim s"
proof (cases "\<exists>c\<in>set s. \<not> is_space c")
  case True
  have "dropWhile is_space (u @ s @ v) = dropWhile is_space (s @ v)"
    using assms(1) by (rule dropWhile_all)
  also have "\<dots> = dropWhile is_space s @ v"
    using True by (rule dropWhile_some)
  finally have 1: "dropWhile is_space (u @ s @ v) = dropWhile is_space s @ v" .
  have "dropWhile is_space (rev v @ rev (dropWhile is_space s))
          = dropWhile is_space (rev (dropWhile is_space s))"
    by (rule dropWhile_all) (use assms(2) in simp)
  then show ?thesis unfolding trim_def 1 by simp
next
  case False
  then have "\<forall>c\<in>set (u @ s @ v). is_space c" using assms by auto
  then have "trim (u @ s @ v) = []" by (rule trim_all_space)
  moreover have "trim s = []" using False by (simp add: trim_all_space)
  ultimately show ?thesis by simp
qed

lemma trim_decomp:
  assumes "\<exists>c\<in>set a. \<not> is_space c"
  shows "\<exists>p q. a = p @ trim a @ q \<and> (\<forall>c\<in>set p. is_space c) \<and> (\<forall>c\<in>set q. is_space c)
            \<and> trim a \<noteq> [] \<and> \<not> is_space (hd (trim a)) \<and> \<not> is_space (last (trim a))"
proof -
  let ?p = "takeWhile is_space a"
  let ?a1 = "dropWhile is_space a"
  let ?q = "rev (takeWhile is_space (rev ?a1))"
  have a1: "?a1 \<noteq> []" using assms by auto
  have h1: "\<not> is_space (hd ?a1)" using a1 by (simp add: hd_dropWhile)
  have ex1: "\<exists>c\<in>set (rev ?a1). \<not> is_space c" using a1 h1 by (cases ?a1) auto
  then have t: "dropWhile is_space (rev ?a1) \<noteq> []" by auto
  have tr: "trim a = rev (dropWhile is_space (rev ?a1))" by (simp add: trim_def)
  have split: "?a1 = trim a @ ?q"
  proof -
    have "rev ?a1 = takeWhile is_space (rev ?a1) @ dropWhile is_space (rev ?a1)" by simp
    then have "rev (rev ?a1) = rev (takeWhile is_space (rev ?a1) @ dropWhile is_space (rev ?a1))"
      by simp
    then show ?thesis unfolding tr by (simp only: rev_rev_ident rev_append)
  qed
  have "a = ?p @ ?a1" by simp
  with split have eq: "a = ?p @ trim a @ ?q" by simp
  have ne: "trim a \<noteq> []" using t tr by simp
  have lastn: "\<not> is_space (last (trim a))"
    using t unfolding tr by (simp add: last_rev hd_dropWhile)
  have hdn: "\<not> is_space (hd (trim a))"
  proof -
    have "hd ?a1 = hd (trim a)" using split ne by (metis hd_append2)
    with h1 show ?thesis by simp
  qed
  have "\<forall>c\<in>set ?p. is_space c" by (auto dest: set_takeWhileD)
  moreover have "\<forall>c\<in>set ?q. is_space c" by (auto dest: set_takeWhileD)
  ultimately show ?thesis using eq ne hdn lastn by blast
qed

lemma replace_spaces_run:
  assumes "w \<noteq> []" "\<forall>c\<in>set w. is_space c" "b = [] \<or> \<not> is_space (hd b)"
  shows "replace_spaces (w @ b) = CHR ''_'' # replace_spaces b"
proof -
  obtain c cs where w: "w = c # cs" using assms(1) by (cases w) auto
  have "dropWhile is_space (cs @ b) = dropWhile is_space b"
    using assms(2) w by (simp add: dropWhile_all)
  moreover have "dropWhile is_space b = b" using assms(3) by (cases b) auto
  ultimately show ?thesis using w assms(2) by simp
qed

lemma replace_spaces_join:
  assumes "w \<noteq> []" "\<forall>c\<in>set w. is_space c" "b = [] \<or> \<not> is_space (hd b)"
  shows "a \<noteq> [] \<Longrightarrow> \<not> is_space (last a) \<Longrightarrow>
     replace_spaces (a @ w @ b) = replace_spaces a @ CHR ''_'' # replace_spaces b"
proof (induction a rule: replace_spaces.induct)
  case 1
  then show ?case by simp
next
  case (2 c cs)
  show ?case
  proof (cases "is_space c")
    case True
    with 2(3,4) have cs: "cs \<noteq> []" "\<not> is_space (last cs)" by (auto split: if_splits)
    then have ex: "\<exists>x\<in>set cs. \<not> is_space x" using last_in_set by blast
    let ?d = "dropWhile is_space cs"
    have d: "?d \<noteq> []" using ex by auto
    have "last ?d = last cs" using d
      by (metis append_take_drop_id last_appendR takeWhile_dropWhile_id)
    with cs have ld: "\<not> is_space (last ?d)" by simp
    have "dropWhile is_space (cs @ w @ b) = ?d @ w @ b" using ex by (rule dropWhile_some)
    with True 2(1)[OF True d ld] show ?thesis by simp
  next
    case False
    show ?thesis
    proof (cases "cs = []")
      case True
      with False replace_spaces_run[OF assms] show ?thesis by simp
    next
      case ne: False
      with 2(4) have "\<not> is_space (last cs)" by simp
      with False 2(2)[OF False ne] show ?thesis by simp
    qed
  qed
qed

lemma trim_fix: "x \<noteq> [] \<Longrightarrow> \<not> is_space (hd x) \<Longrightarrow> \<not> is_space (last x) \<Longrightarrow> trim x = x"
proof -
  assume a: "x \<noteq> []" "\<not> is_space (hd x)" "\<not> is_space (last x)"
  then have 1: "dropWhile is_space x = x" by (cases x) auto
  from a have "dropWhile is_space (rev x) = rev x" by (cases x rule: rev_cases) auto
  with 1 show ?thesis by (simp add: trim_def)
qed

lemma trim_join:
  assumes a: "\<exists>c\<in>set a. \<not> is_space c" and b: "\<exists>c\<in>set b. \<not> is_space c"
    and w: "w \<noteq> []" "\<forall>c\<in>set w. is_space c"
  shows "\<exists>W. W \<noteq> [] \<and> (\<forall>c\<in>set W. is_space c) \<and> trim (a @ w @ b) = trim a @ W @ trim b"
proof -
  from trim_decomp[OF a] obtain p q where
    pa: "a = p @ trim a @ q" "\<forall>c\<in>set p. is_space c" "\<forall>c\<in>set q. is_space c"
        "trim a \<noteq> []" "\<not> is_space (hd (trim a))" "\<not> is_space (last (trim a))" by blast
  from trim_decomp[OF b] obtain p' q' where
    pb: "b = p' @ trim b @ q'" "\<forall>c\<in>set p'. is_space c" "\<forall>c\<in>set q'. is_space c"
        "trim b \<noteq> []" "\<not> is_space (hd (trim b))" "\<not> is_space (last (trim b))" by blast
  let ?W = "q @ w @ p'"
  let ?m = "trim a @ ?W @ trim b"
  have "a @ w @ b = (p @ trim a @ q) @ w @ (p' @ trim b @ q')"
    using pa(1) pb(1) by simp
  then have e: "a @ w @ b = p @ ?m @ q'" by simp
  have "trim (p @ ?m @ q') = trim ?m" by (rule trim_surround[OF pa(2) pb(3)])
  then have "trim (a @ w @ b) = trim ?m" by (simp only: e)
  moreover have "trim ?m = ?m"
    by (rule trim_fix) (use pa pb in auto)
  moreover have "?W \<noteq> []" "\<forall>c\<in>set ?W. is_space c" using w pa(3) pb(2) by auto
  ultimately show ?thesis by metis
qed

lemma normalize_surround:
  assumes "\<forall>c\<in>set u. is_space c" "\<forall>c\<in>set v. is_space c"
  shows "normalizeEntityId (u @ s @ v) = normalizeEntityId s"
  using trim_surround[of "toLowerCase u" "toLowerCase v" "toLowerCase s"] assms
  by (simp add: normalizeEntityId_def toLowerCase_append all_space_toLowerCase)

lemma normalize_join:
  assumes a: "\<exists>c\<in>set a. \<not> is_space c" and b: "\<exists>c\<in>set b. \<not> is_space c"
    and w: "w \<noteq> []" "\<forall>c\<in>set w. is_space c"
  shows "normalizeEntityId (a @ w @ b) = normalizeEntityId a @ CHR ''_'' # normalizeEntityId b"
proof -
  let ?a = "toLowerCase a" and ?b = "toLowerCase b" and ?w = "toLowerCase w"
  have a': "\<exists>c\<in>set ?a. \<not> is_space c" using a by (simp add: ex_nonspace_toLowerCase)
  have b': "\<exists>c\<in>set ?b. \<not> is_space c" using b by (simp add: ex_nonspace_toLowerCase)
  have w': "?w \<noteq> []" "\<forall>c\<in>set ?w. is_space c"
    using w by (simp_all add: all_space_toLowerCase) (simp add: toLowerCase_def)
  from trim_join[OF a' b' w'] obtain W where
    W: "W \<noteq> []" "\<forall>c\<in>set W. is_space c" "trim (?a @ ?w @ ?b) = trim ?a @ W @ trim ?b" by blast
  from trim_decomp[OF a'] have ta: "trim ?a \<noteq> []" "\<not> is_space (last (trim ?a))" by auto
  from trim_decomp[OF b'] have tb: "trim ?b = [] \<or> \<not> is_space (hd (trim ?b))" by auto
  have "replace_spaces (trim ?a @ W @ trim ?b)
          = replace_spaces (trim ?a) @ CHR ''_'' # replace_spaces (trim ?b)"
    using replace_spaces_join[OF W(1,2) tb ta] .
  then show ?thesis by (simp add: normalizeEntityId_def toLowerCase_append W(3))
qed

lemma normalize_chars:
  "\<forall>c\<in>set (normalizeEntityId s). \<not> is_space c \<and> toLowerCase_char c = c"
proof
  fix c assume "c \<in> set (normalizeEntityId s)"
  then have "c \<in> {c \<in> set (trim (toLowerCase s)). \<not> is_space c} \<union> {CHR ''_''}"
    using set_replace_spaces unfolding normalizeEntityId_def by blast
  moreover have "set (trim (toLowerCase s)) \<subseteq> set (toLowerCase s)"
    unfolding trim_def by (auto dest!: set_dropWhileD)
  ultimately have "c = CHR ''_'' \<or> (\<not> is_space c \<and> c \<in> set (toLowerCase s))" by auto
  then show "\<not> is_space c \<and> toLowerCase_char c = c"
    by (auto simp: not_space_underscore lower_underscore toLowerCase_def toLowerCase_char_idem)
qed

lemma normalize_idem: "normalizeEntityId (normalizeEntityId s) = normalizeEntityId s"
proof -
  let ?r = "normalizeEntityId s"
  have 1: "toLowerCase ?r = ?r"
    unfolding toLowerCase_def using normalize_chars[of s] by (simp add: map_idI)
  have 2: "trim ?r = ?r" using normalize_chars[of s] by (simp add: trim_id)
  have 3: "replace_spaces ?r = ?r" using normalize_chars[of s] by (simp add: replace_spaces_id)
  show ?thesis
    by (subst (1) normalizeEntityId_def) (simp only: 1 2 3)
qed

lemma toLowerCase_idem: "toLowerCase (toLowerCase s) = toLowerCase s"
  by (simp add: toLowerCase_def toLowerCase_char_idem)

text \<open>
  Claim C8. \<open>normalizeEntityId\<close> is a total function of its argument alone. It is
  idempotent; its result has no white space and no capital letter; it does not see the
  case of its argument; white space around the name is dropped; and a run of white space
  between two parts that each have a visible character becomes the single character
  \<open>_\<close>, whatever the run is made of. In particular \<^verbatim>\<open>" Foo  Bar "\<close> and
  \<^verbatim>\<open>"foo bar"\<close> have the same id.
\<close>

theorem normalizeEntityId_idempotent_insensitive:
  "normalizeEntityId (normalizeEntityId s) = normalizeEntityId s
   \<and> (\<forall>c\<in>set (normalizeEntityId s). \<not> is_space c \<and> toLowerCase_char c = c)
   \<and> normalizeEntityId (toLowerCase s) = normalizeEntityId s
   \<and> (toLowerCase s = toLowerCase s' \<longrightarrow> normalizeEntityId s = normalizeEntityId s')
   \<and> ((\<forall>c\<in>set u. is_space c) \<and> (\<forall>c\<in>set v. is_space c)
        \<longrightarrow> normalizeEntityId (u @ s @ v) = normalizeEntityId s)
   \<and> ((\<exists>c\<in>set a. \<not> is_space c) \<and> (\<exists>c\<in>set b. \<not> is_space c)
        \<and> w \<noteq> [] \<and> (\<forall>c\<in>set w. is_space c)
        \<longrightarrow> normalizeEntityId (a @ w @ b)
              = normalizeEntityId a @ CHR ''_'' # normalizeEntityId b)
   \<and> normalizeEntityId '' Foo  Bar '' = normalizeEntityId ''foo bar''"
proof -
  have "normalizeEntityId '' Foo  Bar '' = normalizeEntityId ''foo bar''" by code_simp
  moreover have "normalizeEntityId (toLowerCase s) = normalizeEntityId s"
    by (simp add: normalizeEntityId_def toLowerCase_idem)
  moreover have "toLowerCase s = toLowerCase s' \<longrightarrow> normalizeEntityId s = normalizeEntityId s'"
    by (simp add: normalizeEntityId_def)
  ultimately show ?thesis
    using normalize_idem normalize_chars normalize_surround normalize_join by blast
qed

theorem normalizeEntityId_witness:
  "normalizeEntityId (normalizeEntityId ''New  York'') = ''new_york''
   \<and> toLowerCase ''ALICE'' = toLowerCase ''Alice''
   \<and> normalizeEntityId ''ALICE'' = normalizeEntityId ''Alice''
   \<and> normalizeEntityId ('' '' @ ''Bob'' @ ''  '') = normalizeEntityId ''Bob''
   \<and> normalizeEntityId (''New'' @ ''   '' @ ''York'') = ''new_york''"
proof -
  have 1: "toLowerCase ''ALICE'' = toLowerCase ''Alice''" by code_simp
  have 2: "\<forall>c\<in>set '' ''. is_space c" "\<forall>c\<in>set ''  ''. is_space c" "\<forall>c\<in>set ''   ''. is_space c"
    by (simp_all add: is_space_def)
  have 3: "\<exists>c\<in>set ''New''. \<not> is_space c" "\<exists>c\<in>set ''York''. \<not> is_space c"
    by (simp_all add: is_space_def)
  have 4: "normalizeEntityId ''New  York'' = ''new_york''" "normalizeEntityId ''New'' = ''new''"
    "normalizeEntityId ''York'' = ''york''" by code_simp+
  note t = normalizeEntityId_idempotent_insensitive
  have "normalizeEntityId (normalizeEntityId ''New  York'') = normalizeEntityId ''New  York''"
    by (rule t[THEN conjunct1])
  then have a: "normalizeEntityId (normalizeEntityId ''New  York'') = ''new_york''"
    by (simp only: 4)
  from t[of "''ALICE''" "''Alice''"] 1 have b: "normalizeEntityId ''ALICE'' = normalizeEntityId ''Alice''"
    by blast
  from t[of "''Bob''" _ "'' ''" "''  ''"] 2
  have c: "normalizeEntityId ('' '' @ ''Bob'' @ ''  '') = normalizeEntityId ''Bob''" by blast
  from t[of _ _ _ _ "''New''" "''York''" "''   ''"] 2 3
  have "normalizeEntityId (''New'' @ ''   '' @ ''York'')
          = normalizeEntityId ''New'' @ CHR ''_'' # normalizeEntityId ''York''" by blast
  then have d: "normalizeEntityId (''New'' @ ''   '' @ ''York'') = ''new_york''"
    by (simp only: 4) simp
  from a b c d 1 show ?thesis by blast
qed

section \<open>Entity registry\<close>

lemma norm_Alice: "normalizeEntityId ''Alice'' = ''alice''" by code_simp
lemma norm_ALICE: "normalizeEntityId '' ALICE  '' = ''alice''" by code_simp

lemma upsertEntity_stmt_existing:
  assumes "\<exists>e \<in> set rows. eid e = i"
  shows "upsertEntity_stmt rows i nm ty aid now =
           map (\<lambda>e. if eid e = i then e\<lparr>last_seen := now, mention_count := mention_count e + 1\<rparr>
                     else e) rows"
  using assms by (simp add: upsertEntity_stmt_def)

text \<open>
  Claim C10. When \<open>upsertEntity\<close> is called for an id that the registry already has, the
  call returns that id, adds no row, and changes only \<open>last_seen\<close> (to the time of the
  call) and \<open>mention_count\<close> (one more, so at least 1 and larger than before) of the rows
  with that id. Their \<open>canonical_name\<close>, \<open>entity_type\<close>, \<open>first_seen\<close>, \<open>aliases\<close>,
  \<open>metadata\<close> and \<open>agent_id\<close> stay as first inserted, whatever raw name, type or agent
  the later call supplies; every other row and table is untouched.
\<close>

theorem upsertEntity_existing_changes_only_last_seen_and_count:
  assumes "\<exists>e \<in> set (entities st). eid e = normalizeEntityId name"
  shows "fst (upsertEntity st name type agentId now) = normalizeEntityId name
    \<and> length (entities (snd (upsertEntity st name type agentId now))) = length (entities st)
    \<and> (\<forall>k < length (entities st).
          (let old = entities st ! k; new = entities (snd (upsertEntity st name type agentId now)) ! k
           in if eid old = normalizeEntityId name
              then eid new = eid old \<and> canonical_name new = canonical_name old
                 \<and> entity_type new = entity_type old \<and> first_seen new = first_seen old
                 \<and> aliases new = aliases old \<and> metadata new = metadata old
                 \<and> e_agent_id new = e_agent_id old
                 \<and> last_seen new = now
                 \<and> mention_count new = mention_count old + 1
                 \<and> 1 \<le> mention_count new \<and> mention_count old < mention_count new
              else new = old))
    \<and> triples (snd (upsertEntity st name type agentId now)) = triples st
    \<and> triples_seq (snd (upsertEntity st name type agentId now)) = triples_seq st
    \<and> cooccurrences (snd (upsertEntity st name type agentId now)) = cooccurrences st"
  using assms by (simp add: upsertEntity_def Let_def upsertEntity_stmt_existing)

theorem upsertEntity_existing_witness:
  "(let st = \<lparr>triples = [], triples_seq = 0,
              entities = [\<lparr>eid = ''alice'', canonical_name = ''Alice'', entity_type = ''PERSON'',
                           first_seen = 1, last_seen = 1, mention_count = 1, aliases = ''[]'',
                           metadata = None, e_agent_id = ''main''\<rparr>],
              cooccurrences = []\<rparr>
    in (\<exists>e \<in> set (entities st). eid e = normalizeEntityId '' ALICE  '')
     \<and> upsertEntity st '' ALICE  '' (Some ''PLACE'') (Some ''other'') 7 =
         (''alice'', st\<lparr>entities :=
             [\<lparr>eid = ''alice'', canonical_name = ''Alice'', entity_type = ''PERSON'',
               first_seen = 1, last_seen = 7, mention_count = 2, aliases = ''[]'',
               metadata = None, e_agent_id = ''main''\<rparr>]\<rparr>))"
proof -
  let ?e = "\<lparr>eid = ''alice'', canonical_name = ''Alice'', entity_type = ''PERSON'',
                           first_seen = 1, last_seen = 1, mention_count = 1, aliases = ''[]'',
                           metadata = None, e_agent_id = ''main''\<rparr>"
  let ?st = "\<lparr>triples = [], triples_seq = 0, entities = [?e], cooccurrences = []\<rparr>"
  have h: "\<exists>e \<in> set (entities ?st). eid e = normalizeEntityId '' ALICE  ''"
    by (simp add: norm_ALICE)
  note t = upsertEntity_existing_changes_only_last_seen_and_count[OF h, of "Some ''PLACE''" "Some ''other''" 7]
  obtain i st' where u: "upsertEntity ?st '' ALICE  '' (Some ''PLACE'') (Some ''other'') 7 = (i, st')"
    by (cases "upsertEntity ?st '' ALICE  '' (Some ''PLACE'') (Some ''other'') 7")
  from t u have i: "i = ''alice''" by (simp add: norm_ALICE)
  from t u have "length (entities st') = 1" by simp
  then obtain e' where e': "entities st' = [e']" by (cases "entities st'") auto
  from t u e' have f: "eid e' = ''alice''" "canonical_name e' = ''Alice''" "entity_type e' = ''PERSON''"
    "first_seen e' = 1" "aliases e' = ''[]''" "metadata e' = None" "e_agent_id e' = ''main''"
    "last_seen e' = 7" "mention_count e' = 2"
    by (simp_all add: norm_ALICE Let_def)
  from t u have g: "triples st' = []" "triples_seq st' = 0" "cooccurrences st' = []" by simp_all
  have "e' = \<lparr>eid = ''alice'', canonical_name = ''Alice'', entity_type = ''PERSON'',
               first_seen = 1, last_seen = 7, mention_count = 2, aliases = ''[]'',
               metadata = None, e_agent_id = ''main''\<rparr>" using f by (cases e') simp
  with e' g have "st' = ?st\<lparr>entities :=
             [\<lparr>eid = ''alice'', canonical_name = ''Alice'', entity_type = ''PERSON'',
               first_seen = 1, last_seen = 7, mention_count = 2, aliases = ''[]'',
               metadata = None, e_agent_id = ''main''\<rparr>]\<rparr>" by (cases st') simp
  with u i h show ?thesis by (simp add: Let_def)
qed

lemma set_order_by_desc: "set (order_by_desc key rows) = set rows"
  by (simp add: order_by_desc_def)

lemma length_order_by_desc: "length (order_by_desc key rows) = length rows"
  by (simp add: order_by_desc_def)

lemma sorted_order_by_desc: "sorted (map (\<lambda>r. - key r) (order_by_desc key rows))"
  by (simp add: order_by_desc_def)

lemma upsertEntity_stmt_id_exists: "\<exists>e \<in> set (upsertEntity_stmt rows i nm ty aid now). eid e = i"
proof (cases "\<exists>e \<in> set rows. eid e = i")
  case True
  then obtain e where e: "e \<in> set rows" "eid e = i" by blast
  let ?f = "\<lambda>e. if eid e = i then e\<lparr>last_seen := now, mention_count := mention_count e + 1\<rparr> else e"
  have "?f e \<in> set (map ?f rows)" using e(1) by (simp only: set_map) (rule imageI)
  moreover have "eid (?f e) = i" using e(2) by simp
  ultimately show ?thesis using True unfolding upsertEntity_stmt_def by (simp only: if_True) blast
next
  case False
  then show ?thesis by (simp add: upsertEntity_stmt_def)
qed

text \<open>
  Claim C4 says that the same name under two agent ids in one store gives two independent
  rows. The conflict target of the upsert is the id alone, so the second call never adds
  a row: upserting Alice for \<open>agent1\<close> and then for \<open>agent2\<close> in an empty store leaves one
  row, owned by \<open>agent1\<close> with a mention count of 2, and \<open>agent2\<close> has no entity at all.
\<close>

theorem upsertEntity_second_agent_shares_row:
  "length (entities (snd (upsertEntity (snd (upsertEntity st name type agent1 now1))
                            name type' agent2 now2)))
     = length (entities (snd (upsertEntity st name type agent1 now1)))
   \<and> (let st2 = snd (upsertEntity (snd (upsertEntity empty_store ''Alice'' (Some ''PERSON'')
                                          (Some ''agent1'') 1))
                        ''Alice'' (Some ''PERSON'') (Some ''agent2'') 2)
      in entities st2 =
           [\<lparr>eid = ''alice'', canonical_name = ''Alice'', entity_type = ''PERSON'',
             first_seen = 1, last_seen = 2, mention_count = 2, aliases = ''[]'',
             metadata = None, e_agent_id = ''agent1''\<rparr>]
       \<and> entityCount (getStats st2 (Some ''agent2'')) = 0
       \<and> getEntityByName st2 ''Alice'' (Some ''agent2'') = None)"
proof -
  have "\<exists>e \<in> set (entities (snd (upsertEntity st name type agent1 now1))).
          eid e = normalizeEntityId name"
    by (simp add: upsertEntity_def Let_def upsertEntity_stmt_id_exists)
  then have 1: "length (entities (snd (upsertEntity (snd (upsertEntity st name type agent1 now1))
                            name type' agent2 now2)))
     = length (entities (snd (upsertEntity st name type agent1 now1)))"
    by (simp add: upsertEntity_def[of "snd _"] Let_def upsertEntity_stmt_existing)
  have 2: "(let st2 = snd (upsertEntity (snd (upsertEntity empty_store ''Alice'' (Some ''PERSON'')
                                          (Some ''agent1'') 1))
                        ''Alice'' (Some ''PERSON'') (Some ''agent2'') 2)
      in entities st2 =
           [\<lparr>eid = ''alice'', canonical_name = ''Alice'', entity_type = ''PERSON'',
             first_seen = 1, last_seen = 2, mention_count = 2, aliases = ''[]'',
             metadata = None, e_agent_id = ''agent1''\<rparr>]
       \<and> entityCount (getStats st2 (Some ''agent2'')) = 0
       \<and> getEntityByName st2 ''Alice'' (Some ''agent2'') = None)"
    by (simp add: upsertEntity_def Let_def upsertEntity_stmt_def norm_Alice empty_store_def
        or_string_def getStats_def getEntityByName_def)
  from 1 2 show ?thesis by blast
qed

section \<open>Deleting the triples of an exchange\<close>

lemma set_visiting_order: "set (visiting_order s p ob a rows) = set rows"
  by (simp add: visiting_order_def)

lemma set_queryTriples: "set (queryTriples st s p ob a l) \<subseteq> set (triples st)"
proof -
  have "set (queryTriples st s p ob a l)
          \<subseteq> set (order_by_desc updated_at
          (visiting_order s p ob a
             (filter (\<lambda>t. condition s normalizeEntityId (subject t)
                          \<and> condition p (\<lambda>v. v) (predicate t)
                          \<and> condition ob normalizeEntityId (object t)
                          \<and> condition a (\<lambda>v. v) (agent_id t)) (triples st))))"
    unfolding queryTriples_def by (rule set_take_subset)
  also have "\<dots> \<subseteq> set (triples st)"
    unfolding set_order_by_desc set_visiting_order by (rule filter_is_subset)
  finally show ?thesis .
qed

lemma deleteTriplesByExchange_snd:
  "snd (deleteTriplesByExchange st x r)
     = st\<lparr>triples := filter (\<lambda>t. source_exchange_id t \<noteq> Some x) (triples st)\<rparr>"
  by (simp add: deleteTriplesByExchange_def)

lemma deleteTriplesByExchange_fst:
  "fst (deleteTriplesByExchange st x r)
     = \<lparr>changes = length (filter (\<lambda>t. source_exchange_id t = Some x) (triples st)),
        lastInsertRowid = r\<rparr>"
  by (simp add: deleteTriplesByExchange_def)

text \<open>
  Claim C7. \<open>deleteTriplesByExchange\<close> removes exactly the triples whose
  \<open>source_exchange_id\<close> is the given id. It returns the info object of the statement:
  the field \<open>changes\<close> is the number of the triples removed, and the field
  \<open>lastInsertRowid\<close> is the last insert rowid of the connection, whatever it was before
  the call. Afterwards no triple of the table, and so none that \<open>queryTriples\<close> returns
  under any filter, belongs to that exchange. The entity rows (with their mention counts),
  the co-occurrence rows (with their counts) and the rowid counter are as before.
\<close>

theorem deleteTriplesByExchange_frame:
  "(let info = fst (deleteTriplesByExchange st x r); st' = snd (deleteTriplesByExchange st x r)
    in triples st' = filter (\<lambda>t. source_exchange_id t \<noteq> Some x) (triples st)
     \<and> info = \<lparr>changes = length (filter (\<lambda>t. source_exchange_id t = Some x) (triples st)),
                lastInsertRowid = r\<rparr>
     \<and> changes info = length (filter (\<lambda>t. source_exchange_id t = Some x) (triples st))
     \<and> changes info + length (triples st') = length (triples st)
     \<and> (\<forall>t \<in> set (triples st'). source_exchange_id t \<noteq> Some x)
     \<and> (\<forall>t \<in> set (queryTriples st' s p ob a l). source_exchange_id t \<noteq> Some x)
     \<and> entities st' = entities st
     \<and> cooccurrences st' = cooccurrences st
     \<and> triples_seq st' = triples_seq st
     \<and> getEntity st' i = getEntity st i
     \<and> getCooccurrences st' e k = getCooccurrences st e k)"
proof -
  let ?st' = "snd (deleteTriplesByExchange st x r)"
  let ?info = "fst (deleteTriplesByExchange st x r)"
  have t: "triples ?st' = filter (\<lambda>t. source_exchange_id t \<noteq> Some x) (triples st)"
    by (simp add: deleteTriplesByExchange_snd)
  have t2: "\<forall>t \<in> set (triples ?st'). source_exchange_id t \<noteq> Some x"
    unfolding t by simp
  have q: "\<forall>t \<in> set (queryTriples ?st' s p ob a l). source_exchange_id t \<noteq> Some x"
    using set_queryTriples[of ?st' s p ob a l] t2 by blast
  have i: "?info = \<lparr>changes = length (filter (\<lambda>t. source_exchange_id t = Some x) (triples st)),
                lastInsertRowid = r\<rparr>"
    by (rule deleteTriplesByExchange_fst)
  have c: "changes ?info = length (filter (\<lambda>t. source_exchange_id t = Some x) (triples st))"
    unfolding i by simp
  have len: "changes ?info + length (triples ?st') = length (triples st)"
    unfolding t c
    using sum_length_filter_compl[of "\<lambda>t. source_exchange_id t = Some x" "triples st"]
    by simp
  have e: "entities ?st' = entities st" "cooccurrences ?st' = cooccurrences st"
    "triples_seq ?st' = triples_seq st"
    by (simp_all add: deleteTriplesByExchange_snd)
  have g: "getEntity ?st' i = getEntity st i" "getCooccurrences ?st' e k = getCooccurrences st e k"
    unfolding getEntity_def getCooccurrences_def e by simp_all
  show ?thesis unfolding Let_def
    using t t2 q len e g i c by blast
qed

text \<open>
  Claim C7, the returned value. What the call returns is not the count of the removed
  triples: two calls that each remove the one triple of exchange \<^verbatim>\<open>E1\<close> from the same
  store return different values when the last insert rowid of the connection differs,
  and agree only in the field \<open>changes\<close>, which is the count.
\<close>

theorem deleteTriplesByExchange_returns_info_counterexample:
  "fst (deleteTriplesByExchange store3 ''E1'' 3) = \<lparr>changes = 1, lastInsertRowid = 3\<rparr>
   \<and> fst (deleteTriplesByExchange store3 ''E1'' 7) = \<lparr>changes = 1, lastInsertRowid = 7\<rparr>
   \<and> fst (deleteTriplesByExchange store3 ''E1'' 3) \<noteq> fst (deleteTriplesByExchange store3 ''E1'' 7)
   \<and> length (filter (\<lambda>t. source_exchange_id t = Some ''E1'') (triples store3)) = 1
   \<and> snd (deleteTriplesByExchange store3 ''E1'' 3) = snd (deleteTriplesByExchange store3 ''E1'' 7)"
  by (simp add: deleteTriplesByExchange_def store3_def row1_def row2_def row3_def)

theorem deleteTriplesByExchange_witness:
  "fst (deleteTriplesByExchange store3 ''E1'' 3) = \<lparr>changes = 1, lastInsertRowid = 3\<rparr>
   \<and> triples (snd (deleteTriplesByExchange store3 ''E1'' 3)) = [row2, row3]
   \<and> queryTriples (snd (deleteTriplesByExchange store3 ''E1'' 3)) None None None None None
        = [row2, row3]
   \<and> entities (snd (deleteTriplesByExchange store3 ''E1'' 3)) = [alice_row]
   \<and> mention_count alice_row = 3
   \<and> getEntity (snd (deleteTriplesByExchange store3 ''E1'' 3)) ''alice'' = Some alice_row
   \<and> cooccurrences (snd (deleteTriplesByExchange store3 ''E1'' 3)) = [alice_paris]"
proof -
  note t = deleteTriplesByExchange_frame[of store3 "''E1''" 3 None None None None None "''alice''",
      unfolded Let_def]
  have x: "source_exchange_id row1 = Some ''E1''" "source_exchange_id row2 = Some ''E2''"
    "source_exchange_id row3 = None" "updated_at row2 = 5" "updated_at row3 = 3"
    by (simp_all add: row1_def row2_def row3_def)
  have s: "triples store3 = [row1, row2, row3]" "entities store3 = [alice_row]"
    "cooccurrences store3 = [alice_paris]" by (simp_all add: store3_def)
  have 1: "triples (snd (deleteTriplesByExchange store3 ''E1'' 3)) = [row2, row3]"
    using t by (simp add: s x)
  have 2: "fst (deleteTriplesByExchange store3 ''E1'' 3) = \<lparr>changes = 1, lastInsertRowid = 3\<rparr>"
    using t by (simp add: s x)
  have 3: "entities (snd (deleteTriplesByExchange store3 ''E1'' 3)) = [alice_row]"
    "cooccurrences (snd (deleteTriplesByExchange store3 ''E1'' 3)) = [alice_paris]"
    using t by (simp_all add: s)
  have 4: "getEntity (snd (deleteTriplesByExchange store3 ''E1'' 3)) ''alice'' = Some alice_row"
    using t by (simp add: getEntity_def s alice_row_def)
  have 5: "queryTriples (snd (deleteTriplesByExchange store3 ''E1'' 3)) None None None None None
        = [row2, row3]"
    by (simp add: queryTriples_def visiting_order_def present_def 1 condition_def or_nat_def
        order_by_desc_def x)
  have 6: "mention_count alice_row = 3" by (simp add: alice_row_def)
  from 1 2 3 4 5 6 show ?thesis by blast
qed

section \<open>Facts about the example data\<close>

lemma rows_simps:
  "tid row1 = 1" "tid row2 = 2" "tid row3 = 3"
  "subject row1 = ''alice''" "subject row2 = ''bob''" "subject row3 = ''alice''"
  "object row1 = ''paris''" "object row2 = ''alice''" "object row3 = ''alice''"
  "agent_id row1 = ''main''" "agent_id row2 = ''main''" "agent_id row3 = ''main''"
  "updated_at row1 = 1" "updated_at row2 = 5" "updated_at row3 = 3"
  "source_exchange_id row1 = Some ''E1''" "source_exchange_id row2 = Some ''E2''"
  "source_exchange_id row3 = None"
  by (simp_all add: row1_def row2_def row3_def)

section \<open>Ordered reads\<close>

lemma length_take_order_by_desc: "length (take n (order_by_desc key rows)) = min n (length rows)"
  by (simp add: length_order_by_desc min.commute)

lemma sorted_take_order_by_desc: "sorted (map (\<lambda>r. - key r) (take n (order_by_desc key rows)))"
  using sorted_order_by_desc[of key rows] by (simp add: take_map[symmetric] sorted_wrt_take)

lemma set_take_order_by_desc: "set (take n (order_by_desc key rows)) \<subseteq> set rows"
  using set_take_subset[of n "order_by_desc key rows"] by (simp add: set_order_by_desc)

section \<open>Prefix search\<close>

lemma like_percent: "like ''%'' s"
  by (induction s) auto

lemma like_plain_prefix:
  assumes "CHR ''%'' \<notin> set p" "CHR ''_'' \<notin> set p"
  shows "like (p @ ''%'') s
           = (length p \<le> length s \<and> map ascii_lower (take (length p) s) = map ascii_lower p)"
  using assms
proof (induction p arbitrary: s)
  case Nil
  then show ?case using like_percent by simp
next
  case (Cons c p)
  show ?case
  proof (cases s)
    case Nil
    with Cons.prems show ?thesis by auto
  next
    case (Cons d s')
    with Cons.prems Cons.IH[of s'] show ?thesis by auto
  qed
qed


lemma like_ali: "like ''ali%'' ''Alice''" by code_simp

text \<open>
  Claim C9, as amended. \<open>findEntitiesByPrefix\<close> returns at most 10 rows, all of the
  given agent, whose canonical name matches the \<^verbatim>\<open>LIKE\<close> pattern made of the prefix and
  \<^verbatim>\<open>%\<close>. For a prefix without \<^verbatim>\<open>%\<close> and \<^verbatim>\<open>_\<close> this means that the name starts
  with the prefix up to the case of the letters A to Z: the comparison is not
  case-sensitive.
\<close>

theorem findEntitiesByPrefix_like:
  "(\<forall>r \<in> set (findEntitiesByPrefix st prefix agentId).
       r \<in> set (entities st) \<and> e_agent_id r = or_string agentId ''main''
       \<and> like (prefix @ ''%'') (canonical_name r))
   \<and> length (findEntitiesByPrefix st prefix agentId) \<le> 10
   \<and> (CHR ''%'' \<notin> set prefix \<and> CHR ''_'' \<notin> set prefix \<longrightarrow>
        (\<forall>r \<in> set (findEntitiesByPrefix st prefix agentId).
           length prefix \<le> length (canonical_name r)
           \<and> map ascii_lower (take (length prefix) (canonical_name r)) = map ascii_lower prefix))"
proof -
  have 1: "\<forall>r \<in> set (findEntitiesByPrefix st prefix agentId).
       r \<in> set (entities st) \<and> e_agent_id r = or_string agentId ''main''
       \<and> like (prefix @ ''%'') (canonical_name r)"
    unfolding findEntitiesByPrefix_def by (auto dest!: in_set_takeD)
  have 2: "length (findEntitiesByPrefix st prefix agentId) \<le> 10"
    unfolding findEntitiesByPrefix_def by simp
  have 3: "\<forall>r \<in> set (findEntitiesByPrefix st prefix agentId).
           length prefix \<le> length (canonical_name r)
           \<and> map ascii_lower (take (length prefix) (canonical_name r)) = map ascii_lower prefix"
    if "CHR ''%'' \<notin> set prefix" "CHR ''_'' \<notin> set prefix"
    using 1 like_plain_prefix[OF that] by blast
  from 1 2 3 show ?thesis by blast
qed

text \<open>
  Claim C9 as stated asks for a case-sensitive comparison. The prefix \<open>ali\<close> finds the
  entity whose canonical name is \<open>Alice\<close>, which does not start with \<open>ali\<close>.
\<close>

theorem findEntitiesByPrefix_case_sensitive_counterexample:
  "findEntitiesByPrefix store3 ''ali'' (Some ''main'') = [alice_row]
   \<and> canonical_name alice_row = ''Alice''
   \<and> take (length ''ali'') (canonical_name alice_row) \<noteq> ''ali''"
  by (simp add: findEntitiesByPrefix_def store3_def like_ali or_string_def alice_row_def
      del: like.simps)

theorem findEntitiesByPrefix_witness:
  "findEntitiesByPrefix store3 ''ali'' None = [alice_row]
   \<and> e_agent_id alice_row = or_string None ''main''
   \<and> like (''ali'' @ ''%'') (canonical_name alice_row)
   \<and> CHR ''%'' \<notin> set ''ali'' \<and> CHR ''_'' \<notin> set ''ali''
   \<and> map ascii_lower (take (length ''ali'') (canonical_name alice_row)) = map ascii_lower ''ali''"
proof -
  have f: "findEntitiesByPrefix store3 ''ali'' None = [alice_row]"
    by (simp add: findEntitiesByPrefix_def store3_def like_ali or_string_def alice_row_def
      del: like.simps)
  have w: "CHR ''%'' \<notin> set ''ali''" "CHR ''_'' \<notin> set ''ali''" by simp_all
  note t = findEntitiesByPrefix_like[of store3 "''ali''" None]
  from t f have "e_agent_id alice_row = or_string None ''main''
      \<and> like (''ali'' @ ''%'') (canonical_name alice_row)" by (simp del: like.simps)
  moreover from t f w
  have "map ascii_lower (take (length ''ali'') (canonical_name alice_row)) = map ascii_lower ''ali''"
    by (simp del: like.simps)
  ultimately show ?thesis using f w by blast
qed

section \<open>getTriplesFor\<close>

lemma dedup_loop_append:
  "dedup_loop (a @ b) seen result = dedup_loop b (seen \<union> tid ` set a) (dedup_loop a seen result)"
proof (induction a arbitrary: seen result)
  case Nil
  then show ?case by simp
next
  case (Cons t a)
  show ?case
  proof (cases "tid t \<in> seen")
    case True
    then have "seen \<union> tid ` set (t # a) = seen \<union> tid ` set a" by auto
    with True Cons.IH[of seen result] show ?thesis by simp
  next
    case False
    have "insert (tid t) seen \<union> tid ` set a = seen \<union> tid ` set (t # a)" by auto
    with False Cons.IH[of "insert (tid t) seen" "result @ [t]"] show ?thesis by simp
  qed
qed

lemma dedup_loop_distinct_input:
  "distinct (map tid xs) \<Longrightarrow> dedup_loop xs seen result = result @ filter (\<lambda>t. tid t \<notin> seen) xs"
proof (induction xs arbitrary: seen result)
  case Nil
  then show ?case by simp
next
  case (Cons t xs)
  then have d: "distinct (map tid xs)" and n: "tid t \<notin> tid ` set xs" by auto
  have f: "filter (\<lambda>u. tid u \<notin> insert (tid t) seen) xs = filter (\<lambda>u. tid u \<notin> seen) xs"
  proof (rule filter_cong[OF refl])
    fix u assume "u \<in> set xs"
    then have "tid u \<in> tid ` set xs" by (rule imageI)
    with n have "tid u \<noteq> tid t" by metis
    then show "(tid u \<notin> insert (tid t) seen) = (tid u \<notin> seen)" by simp
  qed
  show ?case using Cons.IH[OF d] f by simp
qed

lemma dedup_loop_ids:
  "distinct (map tid result) \<Longrightarrow> tid ` set result \<subseteq> seen \<Longrightarrow>
     distinct (map tid (dedup_loop xs seen result))
     \<and> tid ` set (dedup_loop xs seen result) = tid ` set result \<union> (tid ` set xs - seen)
     \<and> set (dedup_loop xs seen result) \<subseteq> set result \<union> set xs"
proof (induction xs arbitrary: seen result)
  case Nil
  then show ?case by simp
next
  case (Cons t xs)
  show ?case
  proof (cases "tid t \<in> seen")
    case True
    with Cons.IH[OF Cons.prems] show ?thesis by auto
  next
    case False
    have 1: "distinct (map tid (result @ [t]))" using Cons.prems False by auto
    have 2: "tid ` set (result @ [t]) \<subseteq> insert (tid t) seen" using Cons.prems by auto
    from Cons.IH[OF 1 2] False show ?thesis by auto
  qed
qed

lemma distinct_ids_scan:
  assumes "distinct (map tid rows)"
  shows "distinct (map tid (take n (order_by_desc key (filter P rows))))"
proof -
  have "distinct (map tid (filter P rows))" using assms by (rule distinct_map_filter)
  then have "distinct (filter P rows)" "inj_on tid (set (filter P rows))"
    by (simp_all add: distinct_map)
  then have "distinct (map tid (order_by_desc key (filter P rows)))"
    by (simp add: distinct_map order_by_desc_def)
  then show ?thesis by (simp add: take_map[symmetric])
qed

text \<open>
  Claim C5, as amended. \<open>getTriplesFor\<close> returns rows of the subject scan and of the
  object scan of the normalized name for the agent; every id of either scan occurs, and
  occurs once. Each scan is ordered most recently updated first and capped at the limit
  (50 by default) on its own, so the result has up to twice the limit rows. With unique
  triple ids the result is the subject scan followed by the rows of the object scan whose
  id the subject scan did not give: the two runs are not merged by update time.
\<close>

theorem getTriplesFor_concatenates_scans:
  "(let i = normalizeEntityId entityName; aid = or_string agentId ''main'';
        lim' = or_nat limit 50;
        asSubject = getTriplesForSubject st i aid lim';
        asObject = getTriplesForObject st i aid lim';
        result = getTriplesFor st entityName agentId limit
    in distinct (map tid result)
     \<and> tid ` set result = tid ` set asSubject \<union> tid ` set asObject
     \<and> set result \<subseteq> set asSubject \<union> set asObject
     \<and> set asSubject \<subseteq> {t \<in> set (triples st). subject t = i \<and> agent_id t = aid}
     \<and> set asObject \<subseteq> {t \<in> set (triples st). object t = i \<and> agent_id t = aid}
     \<and> sorted (map (\<lambda>t. - updated_at t) asSubject)
     \<and> sorted (map (\<lambda>t. - updated_at t) asObject)
     \<and> length asSubject \<le> lim' \<and> length asObject \<le> lim'
     \<and> length result \<le> 2 * lim'
     \<and> (distinct (map tid (triples st)) \<longrightarrow>
          result = asSubject @ filter (\<lambda>t. tid t \<notin> tid ` set asSubject) asObject))"
proof -
  define i where "i = normalizeEntityId entityName"
  define aid where "aid = or_string agentId ''main''"
  define lim' where "lim' = or_nat limit 50"
  define asSubject where "asSubject = getTriplesForSubject st i aid lim'"
  define asObject where "asObject = getTriplesForObject st i aid lim'"
  define result where "result = getTriplesFor st entityName agentId limit"
  have r: "result = dedup_loop (asSubject @ asObject) {} []"
    by (simp add: result_def getTriplesFor_def Let_def asSubject_def asObject_def i_def aid_def
        lim'_def)
  from dedup_loop_ids[of "[]" "{}" "asSubject @ asObject"]
  have 1: "distinct (map tid result)"
    "tid ` set result = tid ` set asSubject \<union> tid ` set asObject"
    "set result \<subseteq> set asSubject \<union> set asObject"
    unfolding r by (simp_all add: image_Un)
  have 2: "set asSubject \<subseteq> {t \<in> set (triples st). subject t = i \<and> agent_id t = aid}"
    unfolding asSubject_def getTriplesForSubject_def
    using set_take_order_by_desc[of lim' updated_at
        "filter (\<lambda>t. subject t = i \<and> agent_id t = aid) (triples st)"] by auto
  have 3: "set asObject \<subseteq> {t \<in> set (triples st). object t = i \<and> agent_id t = aid}"
    unfolding asObject_def getTriplesForObject_def
    using set_take_order_by_desc[of lim' updated_at
        "filter (\<lambda>t. object t = i \<and> agent_id t = aid) (triples st)"] by auto
  have 4: "sorted (map (\<lambda>t. - updated_at t) asSubject)" "sorted (map (\<lambda>t. - updated_at t) asObject)"
    unfolding asSubject_def getTriplesForSubject_def asObject_def getTriplesForObject_def
    by (rule sorted_take_order_by_desc)+
  have 5: "length asSubject \<le> lim'" "length asObject \<le> lim'"
    unfolding asSubject_def getTriplesForSubject_def asObject_def getTriplesForObject_def
    by simp_all
  have "length result \<le> length (asSubject @ asObject)"
    using 1(1,3) by (metis card_mono distinct_card length_map List.finite_set
        distinct_map card_length le_trans set_append)
  with 5 have 6: "length result \<le> 2 * lim'" by simp
  have 7: "result = asSubject @ filter (\<lambda>t. tid t \<notin> tid ` set asSubject) asObject"
    if d: "distinct (map tid (triples st))"
  proof -
    have ds: "distinct (map tid asSubject)" and dob: "distinct (map tid asObject)"
      unfolding asSubject_def getTriplesForSubject_def asObject_def getTriplesForObject_def
      using d by (rule distinct_ids_scan)+
    have "result = dedup_loop asObject (tid ` set asSubject) (dedup_loop asSubject {} [])"
      unfolding r by (simp add: dedup_loop_append)
    also have "dedup_loop asSubject {} [] = asSubject"
      using dedup_loop_distinct_input[OF ds, of "{}" "[]"] by simp
    also have "dedup_loop asObject (tid ` set asSubject) asSubject
                 = asSubject @ filter (\<lambda>t. tid t \<notin> tid ` set asSubject) asObject"
      by (rule dedup_loop_distinct_input[OF dob])
    finally show ?thesis .
  qed
  show ?thesis
    unfolding Let_def
    using 1 2 3 4 5 6 7
    unfolding result_def asSubject_def asObject_def i_def aid_def lim'_def
    by blast
qed

lemma scans_store3:
  "getTriplesForSubject store3 ''alice'' ''main'' 50 = [row3, row1]"
  "getTriplesForObject store3 ''alice'' ''main'' 50 = [row2, row3]"
  "getTriplesForSubject store3 ''alice'' ''main'' 1 = [row3]"
  "getTriplesForObject store3 ''alice'' ''main'' 1 = [row2]"
  by (simp_all add: getTriplesForSubject_def getTriplesForObject_def store3_def rows_simps
      order_by_desc_def)

text \<open>
  Claim C5 as stated has the result ordered most recently updated first. For Alice in
  \<open>store3\<close> the result is row 3, row 1, row 2, updated at 3, 1 and 5: row 2 is the latest
  and comes last, because the object scan follows the subject scan. The self-referential
  row 3 occurs once.
\<close>

theorem getTriplesFor_order_counterexample:
  "getTriplesFor store3 ''Alice'' None None = [row3, row1, row2]
   \<and> map updated_at (getTriplesFor store3 ''Alice'' None None) = [3, 1, 5]
   \<and> \<not> sorted (map (\<lambda>t. - updated_at t) (getTriplesFor store3 ''Alice'' None None))"
proof -
  have "getTriplesFor store3 ''Alice'' None None = [row3, row1, row2]"
    by (simp add: getTriplesFor_def norm_Alice or_string_def or_nat_def scans_store3 rows_simps)
  then show ?thesis by (simp add: rows_simps)
qed

theorem getTriplesFor_witness:
  "distinct (map tid (triples store3))
   \<and> getTriplesFor store3 ''Alice'' None (Some 1) = [row3, row2]
   \<and> length (getTriplesFor store3 ''Alice'' None (Some 1)) = 2 * 1
   \<and> getTriplesFor store3 ''Alice'' None None = [row3, row1, row2]"
proof -
  have d: "distinct (map tid (triples store3))" by (simp add: store3_def rows_simps)
  have n: "normalizeEntityId ''Alice'' = ''alice''" "or_string None ''main'' = ''main''"
    "or_nat (Some 1) 50 = 1" "or_nat None 50 = 50"
    by (simp_all add: norm_Alice or_string_def or_nat_def)
  note t1 = getTriplesFor_concatenates_scans[of "''Alice''" None "Some 1" store3,
      unfolded Let_def n scans_store3]
  note t2 = getTriplesFor_concatenates_scans[of "''Alice''" None None store3,
      unfolded Let_def n scans_store3]
  from t1 d have "getTriplesFor store3 ''Alice'' None (Some 1)
      = [row3] @ filter (\<lambda>t. tid t \<notin> tid ` set [row3]) [row2]" by blast
  then have 1: "getTriplesFor store3 ''Alice'' None (Some 1) = [row3, row2]"
    by (simp add: rows_simps)
  from t2 d have "getTriplesFor store3 ''Alice'' None None
      = [row3, row1] @ filter (\<lambda>t. tid t \<notin> tid ` set [row3, row1]) [row2, row3]" by blast
  then have 2: "getTriplesFor store3 ''Alice'' None None = [row3, row1, row2]"
    by (simp add: rows_simps)
  from d 1 2 show ?thesis by simp
qed

section \<open>addTriple\<close>

lemma find_map_same:
  "(\<And>t. P (f t) = P t) \<Longrightarrow> find P (map f xs) = map_option f (find P xs)"
  by (induction xs) auto

lemma find_append_new:
  "find P xs = None \<Longrightarrow> P y \<Longrightarrow> find P (xs @ [y]) = Some y"
  by (induction xs) (auto split: if_splits)

lemma findTriple_update:
  "findTriple (updateTripleConfidence st c i now) s p ob aid
     = map_option (\<lambda>t. if tid t = i
                         then t\<lparr>confidence := max (confidence t) c, updated_at := now\<rparr> else t)
         (findTriple st s p ob aid)"
  unfolding findTriple_def updateTripleConfidence_def
  by (simp add: find_map_same)

lemma findTriple_insert:
  assumes "findTriple st s p ob aid = None"
  shows "\<exists>ex. findTriple (snd (insertTriple st s p ob c x d aid pend now)) s p ob aid = Some ex
            \<and> tid ex = fst (insertTriple st s p ob c x d aid pend now)"
  using assms unfolding findTriple_def insertTriple_def Let_def
  by (simp add: find_append_new)

lemma addTriple_found:
  "findTriple st (normalizeEntityId subj) pred (normalizeEntityId obj) (or_string agentId ''main'')
     = Some ex \<Longrightarrow>
   addTriple st subj pred obj conf x d agentId pend now today
     = (tid ex, updateTripleConfidence st (or_real conf 1) (tid ex) now)"
  by (simp add: addTriple_def Let_def)

lemma addTriple_new:
  "findTriple st (normalizeEntityId subj) pred (normalizeEntityId obj) (or_string agentId ''main'')
     = None \<Longrightarrow>
   addTriple st subj pred obj conf x d agentId pend now today
     = insertTriple st (normalizeEntityId subj) pred (normalizeEntityId obj) (or_real conf 1)
         (or_null x) (or_string d today) (or_string agentId ''main'') pend now"
  by (simp add: addTriple_def Let_def)

lemma findTriple_after_addTriple:
  "\<exists>ex. findTriple (snd (addTriple st subj pred obj conf x d agentId pend now today))
           (normalizeEntityId subj) pred (normalizeEntityId obj) (or_string agentId ''main'')
         = Some ex
       \<and> tid ex = fst (addTriple st subj pred obj conf x d agentId pend now today)"
proof (cases "findTriple st (normalizeEntityId subj) pred (normalizeEntityId obj)
                (or_string agentId ''main'')")
  case None
  show ?thesis unfolding addTriple_new[OF None] by (rule findTriple_insert[OF None])
next
  case (Some ex)
  show ?thesis unfolding addTriple_found[OF Some] by (simp add: findTriple_update Some)
qed

lemma tid_less_next_rowid: "t \<in> set (triples st) \<Longrightarrow> tid t < next_rowid st"
proof -
  assume "t \<in> set (triples st)"
  then have "tid t \<in> set (triples_seq st # map tid (triples st))" by simp
  then have "tid t \<le> Max (set (triples_seq st # map tid (triples st)))"
    by (intro Max_ge) simp_all
  then show ?thesis unfolding next_rowid_def Max.set_eq_fold by simp
qed

lemma update_fresh_id:
  "map (\<lambda>t. if tid t = next_rowid st then f t else t) (triples st) = triples st"
  by (rule map_idI) (use tid_less_next_rowid in fastforce)

lemma findTriple_in_set: "findTriple st s p ob aid = Some ex \<Longrightarrow> ex \<in> set (triples st)"
  unfolding findTriple_def by (auto simp: find_Some_iff)

text \<open>
  Claim C2, as amended. Of two \<open>addTriple\<close> calls with the same predicate, the same agent
  and subjects and objects that normalize alike, the second returns the id the first
  returned and adds no row. It sets \<open>updated_at\<close> of the row to the time of the call and
  its confidence to the larger of the stored one and the incoming one, where an incoming
  confidence that is missing or 0 counts as 1; no confidence in the table gets smaller.
  Swapping the two confidences gives the same final store.
\<close>

theorem addTriple_twice_max:
  assumes "normalizeEntityId subj' = normalizeEntityId subj"
    and "normalizeEntityId obj' = normalizeEntityId obj"
    and "or_string agentId' ''main'' = or_string agentId ''main''"
  shows "(let id1 = fst (addTriple st subj pred obj conf1 x1 d1 agentId pend1 now1 today1);
              st1 = snd (addTriple st subj pred obj conf1 x1 d1 agentId pend1 now1 today1);
              id2 = fst (addTriple st1 subj' pred obj' conf2 x2 d2 agentId' pend2 now2 today2);
              st2 = snd (addTriple st1 subj' pred obj' conf2 x2 d2 agentId' pend2 now2 today2)
          in id2 = id1
           \<and> (\<exists>t \<in> set (triples st1). tid t = id1)
           \<and> length (triples st2) = length (triples st1)
           \<and> triples st2 =
               map (\<lambda>t. if tid t = id1
                         then t\<lparr>confidence := max (confidence t) (or_real conf2 1),
                                updated_at := now2\<rparr>
                         else t) (triples st1)
           \<and> (\<forall>k < length (triples st1).
                 confidence (triples st1 ! k) \<le> confidence (triples st2 ! k))
           \<and> triples_seq st2 = triples_seq st1
           \<and> entities st2 = entities st1 \<and> cooccurrences st2 = cooccurrences st1)
     \<and> snd (addTriple (snd (addTriple st subj pred obj conf1 x1 d1 agentId pend1 now1 today1))
               subj pred obj conf2 x1 d1 agentId pend1 now2 today1)
       = snd (addTriple (snd (addTriple st subj pred obj conf2 x1 d1 agentId pend1 now1 today1))
               subj pred obj conf1 x1 d1 agentId pend1 now2 today1)"
proof -
  define s where "s = normalizeEntityId subj"
  define ob where "ob = normalizeEntityId obj"
  define aid where "aid = or_string agentId ''main''"
  define id1 where "id1 = fst (addTriple st subj pred obj conf1 x1 d1 agentId pend1 now1 today1)"
  define st1 where "st1 = snd (addTriple st subj pred obj conf1 x1 d1 agentId pend1 now1 today1)"
  from findTriple_after_addTriple[of st subj pred obj conf1 x1 d1 agentId pend1 now1 today1]
  obtain ex where ex: "findTriple st1 s pred ob aid = Some ex" "tid ex = id1"
    unfolding st1_def id1_def s_def ob_def aid_def by blast
  have ex': "findTriple st1 (normalizeEntityId subj') pred (normalizeEntityId obj')
               (or_string agentId' ''main'') = Some ex"
    using ex(1) assms by (simp add: s_def ob_def aid_def)
  have a2: "addTriple st1 subj' pred obj' conf2 x2 d2 agentId' pend2 now2 today2
              = (id1, updateTripleConfidence st1 (or_real conf2 1) id1 now2)"
    using addTriple_found[OF ex'] ex(2) by simp
  have in1: "\<exists>t \<in> set (triples st1). tid t = id1"
    using findTriple_in_set[OF ex(1)] ex(2) by blast
  have part1: "(let id1 = fst (addTriple st subj pred obj conf1 x1 d1 agentId pend1 now1 today1);
              st1 = snd (addTriple st subj pred obj conf1 x1 d1 agentId pend1 now1 today1);
              id2 = fst (addTriple st1 subj' pred obj' conf2 x2 d2 agentId' pend2 now2 today2);
              st2 = snd (addTriple st1 subj' pred obj' conf2 x2 d2 agentId' pend2 now2 today2)
          in id2 = id1
           \<and> (\<exists>t \<in> set (triples st1). tid t = id1)
           \<and> length (triples st2) = length (triples st1)
           \<and> triples st2 =
               map (\<lambda>t. if tid t = id1
                         then t\<lparr>confidence := max (confidence t) (or_real conf2 1),
                                updated_at := now2\<rparr>
                         else t) (triples st1)
           \<and> (\<forall>k < length (triples st1).
                 confidence (triples st1 ! k) \<le> confidence (triples st2 ! k))
           \<and> triples_seq st2 = triples_seq st1
           \<and> entities st2 = entities st1 \<and> cooccurrences st2 = cooccurrences st1)"
    unfolding Let_def id1_def[symmetric] st1_def[symmetric] a2
    using in1 by (simp add: updateTripleConfidence_def)
  have part2: "snd (addTriple (snd (addTriple st subj pred obj c1 x1 d1 agentId pend1 now1 today1))
               subj pred obj c2 x1 d1 agentId pend1 now2 today1)
       = (case findTriple st s pred ob aid of
            Some e0 \<Rightarrow> st\<lparr>triples := map (\<lambda>t. if tid t = tid e0
                then t\<lparr>confidence := max (confidence t) (max (or_real c1 1) (or_real c2 1)),
                       updated_at := now2\<rparr> else t) (triples st)\<rparr>
          | None \<Rightarrow> st\<lparr>triples := triples st @
                 [\<lparr>tid = next_rowid st, subject = s, predicate = pred, object = ob,
                   confidence = max (or_real c1 1) (or_real c2 1),
                   source_exchange_id = or_null x1, source_date = or_string d1 today1,
                   created_at = now1, updated_at = now2, agent_id = aid,
                   pending_resolution = pend1\<rparr>],
                 triples_seq := next_rowid st\<rparr>)" for c1 c2
  proof (cases "findTriple st s pred ob aid")
    case None
    have n: "findTriple st (normalizeEntityId subj) pred (normalizeEntityId obj)
               (or_string agentId ''main'') = None"
      using None by (simp add: s_def ob_def aid_def)
    let ?st1 = "snd (addTriple st subj pred obj c1 x1 d1 agentId pend1 now1 today1)"
    from findTriple_after_addTriple[of st subj pred obj c1 x1 d1 agentId pend1 now1 today1]
    obtain e1 where e1: "findTriple ?st1 (normalizeEntityId subj) pred (normalizeEntityId obj)
        (or_string agentId ''main'') = Some e1"
      "tid e1 = fst (addTriple st subj pred obj c1 x1 d1 agentId pend1 now1 today1)" by blast
    have t1: "tid e1 = next_rowid st"
      using e1(2) unfolding addTriple_new[OF n] by (simp add: insertTriple_def Let_def)
    show ?thesis
      unfolding addTriple_found[OF e1(1)] t1 None
      unfolding addTriple_new[OF n]
      by (simp add: insertTriple_def Let_def updateTripleConfidence_def s_def ob_def aid_def
          update_fresh_id)
  next
    case (Some e0)
    have n: "findTriple st (normalizeEntityId subj) pred (normalizeEntityId obj)
               (or_string agentId ''main'') = Some e0"
      using Some by (simp add: s_def ob_def aid_def)
    let ?st1 = "updateTripleConfidence st (or_real c1 1) (tid e0) now1"
    have f1: "findTriple ?st1 (normalizeEntityId subj) pred (normalizeEntityId obj)
        (or_string agentId ''main'')
        = Some (e0\<lparr>confidence := max (confidence e0) (or_real c1 1), updated_at := now1\<rparr>)"
      by (simp add: findTriple_update n)
    have a2: "addTriple ?st1 subj pred obj c2 x1 d1 agentId pend1 now2 today1
                = (tid e0, updateTripleConfidence ?st1 (or_real c2 1) (tid e0) now2)"
      using addTriple_found[OF f1] by simp
    have m: "updateTripleConfidence ?st1 (or_real c2 1) (tid e0) now2
               = st\<lparr>triples := map (\<lambda>t. if tid t = tid e0
                then t\<lparr>confidence := max (confidence t) (max (or_real c1 1) (or_real c2 1)),
                       updated_at := now2\<rparr> else t) (triples st)\<rparr>"
      by (simp add: updateTripleConfidence_def o_def max.assoc cong: if_cong)
    show ?thesis
      unfolding addTriple_found[OF n] Some snd_conv a2 m by simp
  qed
  have c: "max (or_real conf1 1) (or_real conf2 1) = max (or_real conf2 1) (or_real conf1 1)"
    by (rule max.commute)
  have part3: "snd (addTriple (snd (addTriple st subj pred obj conf1 x1 d1 agentId pend1 now1 today1))
               subj pred obj conf2 x1 d1 agentId pend1 now2 today1)
       = snd (addTriple (snd (addTriple st subj pred obj conf2 x1 d1 agentId pend1 now1 today1))
               subj pred obj conf1 x1 d1 agentId pend1 now2 today1)"
    unfolding part2 c by (rule refl)
  from part1 part3 show ?thesis by blast
qed

lemma norm_Paris: "normalizeEntityId ''Paris'' = ''paris''" by code_simp
lemma norm_alice_sp: "normalizeEntityId '' alice '' = ''alice''" by code_simp
lemma norm_PARIS: "normalizeEntityId ''PARIS'' = ''paris''" by code_simp

lemma next_rowid_empty: "next_rowid empty_store = 1"
  by (simp add: next_rowid_def empty_store_def)

lemma addTriple_first:
  "addTriple empty_store ''Alice'' ''visited'' ''Paris'' (Some c) (Some ''E1'') None None False 1
     ''2024-01-01''
   = (1, \<lparr>triples = [\<lparr>tid = 1, subject = ''alice'', predicate = ''visited'', object = ''paris'',
                       confidence = (if c = 0 then 1 else c), source_exchange_id = Some ''E1'',
                       source_date = ''2024-01-01'', created_at = 1, updated_at = 1,
                       agent_id = ''main'', pending_resolution = False\<rparr>],
          triples_seq = 1, entities = [], cooccurrences = []\<rparr>)"
  by (simp add: addTriple_def norm_Alice norm_Paris findTriple_def insertTriple_def
      next_rowid_def empty_store_def or_string_def or_real_def or_null_def Let_def)

text \<open>
  Claim C2 as stated takes the larger of the stored and the incoming confidence. With
  0.5 stored and 0 incoming that is 0.5; the row ends with confidence 1, since
  \<^verbatim>\<open>confidence || 1.0\<close> reads 0 as missing.
\<close>

theorem addTriple_zero_confidence_counterexample:
  "(let st1 = snd (addTriple empty_store ''Alice'' ''visited'' ''Paris'' (Some (1 / 2))
                     (Some ''E1'') None None False 1 ''2024-01-01'');
        st2 = snd (addTriple st1 ''Alice'' ''visited'' ''Paris'' (Some 0)
                     (Some ''E1'') None None False 2 ''2024-01-01'')
    in map confidence (triples st1) = [1 / 2]
     \<and> map confidence (triples st2) = [1]
     \<and> max (1 / 2) (0 :: real) = 1 / 2)"
  unfolding Let_def addTriple_first snd_conv
  by (simp add: addTriple_def norm_Alice norm_Paris findTriple_def or_string_def or_real_def
      updateTripleConfidence_def Let_def)

theorem addTriple_twice_witness:
  "normalizeEntityId '' alice '' = normalizeEntityId ''Alice''
   \<and> normalizeEntityId ''PARIS'' = normalizeEntityId ''Paris''
   \<and> or_string (Some ''main'') ''main'' = or_string None ''main''
   \<and> (let st1 = snd (addTriple empty_store ''Alice'' ''visited'' ''Paris'' (Some (6 / 10))
                     (Some ''E1'') None None False 1 ''2024-01-01'');
          r2 = addTriple st1 '' alice '' ''visited'' ''PARIS'' (Some (9 / 10))
                     (Some ''E2'') None (Some ''main'') False 2 ''2024-01-02''
      in fst r2 = 1 \<and> map tid (triples (snd r2)) = [1]
       \<and> map confidence (triples (snd r2)) = [9 / 10]
       \<and> map updated_at (triples (snd r2)) = [2])
   \<and> (let st1 = snd (addTriple empty_store ''Alice'' ''visited'' ''Paris'' (Some (9 / 10))
                     (Some ''E1'') None None False 1 ''2024-01-01'');
          r2 = addTriple st1 '' alice '' ''visited'' ''PARIS'' (Some (6 / 10))
                     (Some ''E2'') None (Some ''main'') False 2 ''2024-01-02''
      in fst r2 = 1 \<and> map tid (triples (snd r2)) = [1]
       \<and> map confidence (triples (snd r2)) = [9 / 10]
       \<and> map updated_at (triples (snd r2)) = [2])"
proof -
  have h: "normalizeEntityId '' alice '' = normalizeEntityId ''Alice''"
    "normalizeEntityId ''PARIS'' = normalizeEntityId ''Paris''"
    "or_string (Some ''main'') ''main'' = or_string None ''main''"
    by (simp_all add: norm_Alice norm_alice_sp norm_PARIS norm_Paris or_string_def)
  note t = addTriple_twice_max[OF h, of empty_store "''visited''" _ "Some ''E1''" None False 1
      "''2024-01-01''" _ "Some ''E2''" None False 2 "''2024-01-02''", THEN conjunct1,
      unfolded Let_def addTriple_first fst_conv snd_conv]
  have a: "fst (addTriple (snd (addTriple empty_store ''Alice'' ''visited'' ''Paris'' (Some (6 / 10))
                     (Some ''E1'') None None False 1 ''2024-01-01''))
             '' alice '' ''visited'' ''PARIS'' (Some (9 / 10))
                     (Some ''E2'') None (Some ''main'') False 2 ''2024-01-02'') = 1"
    "triples (snd (addTriple (snd (addTriple empty_store ''Alice'' ''visited'' ''Paris'' (Some (6 / 10))
                     (Some ''E1'') None None False 1 ''2024-01-01''))
             '' alice '' ''visited'' ''PARIS'' (Some (9 / 10))
                     (Some ''E2'') None (Some ''main'') False 2 ''2024-01-02''))
      = [\<lparr>tid = 1, subject = ''alice'', predicate = ''visited'', object = ''paris'',
                       confidence = 9 / 10, source_exchange_id = Some ''E1'',
                       source_date = ''2024-01-01'', created_at = 1, updated_at = 2,
                       agent_id = ''main'', pending_resolution = False\<rparr>]"
    using t[of "Some (6 / 10)" "Some (9 / 10)"]
    unfolding addTriple_first snd_conv by (simp_all add: or_real_def)
  have b: "fst (addTriple (snd (addTriple empty_store ''Alice'' ''visited'' ''Paris'' (Some (9 / 10))
                     (Some ''E1'') None None False 1 ''2024-01-01''))
             '' alice '' ''visited'' ''PARIS'' (Some (6 / 10))
                     (Some ''E2'') None (Some ''main'') False 2 ''2024-01-02'') = 1"
    "triples (snd (addTriple (snd (addTriple empty_store ''Alice'' ''visited'' ''Paris'' (Some (9 / 10))
                     (Some ''E1'') None None False 1 ''2024-01-01''))
             '' alice '' ''visited'' ''PARIS'' (Some (6 / 10))
                     (Some ''E2'') None (Some ''main'') False 2 ''2024-01-02''))
      = [\<lparr>tid = 1, subject = ''alice'', predicate = ''visited'', object = ''paris'',
                       confidence = 9 / 10, source_exchange_id = Some ''E1'',
                       source_date = ''2024-01-01'', created_at = 1, updated_at = 2,
                       agent_id = ''main'', pending_resolution = False\<rparr>]"
    using t[of "Some (9 / 10)" "Some (6 / 10)"]
    unfolding addTriple_first snd_conv by (simp_all add: or_real_def)
  show ?thesis unfolding Let_def using h a b by simp
qed

section \<open>writeExchange\<close>

lemma ex_less_Suc_shift: "(\<exists>k<Suc m. P (n + k)) = (P n \<or> (\<exists>k<m. P (Suc n + k)))"
proof
  assume "\<exists>k<Suc m. P (n + k)"
  then obtain k where k: "k < Suc m" "P (n + k)" by blast
  show "P n \<or> (\<exists>k<m. P (Suc n + k))"
  proof (cases k)
    case 0
    with k show ?thesis by simp
  next
    case (Suc j)
    with k have "j < m" "P (Suc n + j)" by simp_all
    then show ?thesis by blast
  qed
next
  assume "P n \<or> (\<exists>k<m. P (Suc n + k))"
  then show "\<exists>k<Suc m. P (n + k)"
  proof
    assume "P n"
    then have "P (n + 0)" by simp
    then show ?thesis by blast
  next
    assume "\<exists>k<m. P (Suc n + k)"
    then obtain k where "k < m" "P (Suc n + k)" by blast
    then have "Suc k < Suc m" "P (n + Suc k)" by simp_all
    then show ?thesis by blast
  qed
qed

lemma register_entities_eq:
  "register_entities fails n st ents aid now =
     (if \<exists>k<length ents. fails (n + k) then Inl SqliteError
      else Inr (n + length ents, upsert_all_entities st ents aid now))"
proof (induction ents arbitrary: n st)
  case Nil
  then show ?case by (simp add: upsert_all_entities_def)
next
  case (Cons e ents)
  show ?case
    using Cons.IH[of "Suc n"]
    by (simp add: ex_less_Suc_shift[of "length ents" fails n] upsert_all_entities_def
        del: ex_simps)
qed

lemma ex_less_double_shift:
  "(\<exists>k<2 * Suc m. P (n + k)) = (P n \<or> P (Suc n) \<or> (\<exists>k<2 * m. P (Suc (Suc n) + k)))"
proof -
  have "2 * Suc m = Suc (Suc (2 * m))" by simp
  then show ?thesis
    using ex_less_Suc_shift[of "Suc (2 * m)" P n] ex_less_Suc_shift[of "2 * m" P "Suc n"]
    by simp
qed

lemma write_triples_eq:
  "write_triples fails n st tripleIds trips x date aid now today =
     (if \<exists>k<2 * length trips. fails (n + k) then Inl SqliteError
      else Inr (n + 2 * length trips,
                snd (add_all_triples st trips x date aid now today),
                tripleIds @ fst (add_all_triples st trips x date aid now today)))"
proof (induction trips arbitrary: n st tripleIds)
  case Nil
  then show ?case by simp
next
  case (Cons t trips)
  have e: "(\<exists>k<2 * length (t # trips). fails (n + k))
             = (fails n \<or> fails (Suc n) \<or> (\<exists>k<2 * length trips. fails (Suc (Suc n) + k)))"
    using ex_less_double_shift[of "length trips" fails n] by simp
  have l: "n + 2 * length (t # trips) = Suc (Suc n) + 2 * length trips" by simp
  show ?case
    unfolding e l
    using Cons.IH[of "Suc (Suc n)"]
    by (simp add: split_beta Let_def del: ex_simps)
qed

lemma sorted_pair_min_max: "sorted_pair a b = (min a b, max a b)"
  by (auto simp: sorted_pair_def min_def max_def)

lemma update_cooccurrences_eq:
  "update_cooccurrences fails n st coocs now =
     (if \<exists>k<length coocs. fails (n + k) then Inl SqliteError
      else Inr (upsert_all_cooccurrences st coocs now))"
proof (induction coocs arbitrary: n st)
  case Nil
  then show ?case by (simp add: upsert_all_cooccurrences_def)
next
  case (Cons c coocs)
  obtain a b where c: "c = (a, b)" by (cases c)
  show ?case
    using Cons.IH[of "Suc n"]
    by (simp add: c ex_less_Suc_shift[of "length coocs" fails n] upsert_all_cooccurrences_def
        sorted_pair_min_max Let_def del: ex_simps)
qed

lemma ex_less_add_split: "(\<exists>k<a + b. P k) = ((\<exists>k<a. P k) \<or> (\<exists>k<b. P (a + k)))" for a b :: nat
proof
  assume "\<exists>k<a + b. P k"
  then obtain k where k: "k < a + b" "P k" by blast
  show "(\<exists>k<a. P k) \<or> (\<exists>k<b. P (a + k))"
  proof (cases "k < a")
    case True
    with k show ?thesis by blast
  next
    case False
    then have "k - a < b" "P (a + (k - a))" using k by simp_all
    then show ?thesis by blast
  qed
next
  assume "(\<exists>k<a. P k) \<or> (\<exists>k<b. P (a + k))"
  then show "\<exists>k<a + b. P k"
  proof
    assume "\<exists>k<a. P k"
    then obtain k where "k < a" "P k" by blast
    then have "k < a + b" by simp
    with \<open>P k\<close> show ?thesis by blast
  next
    assume "\<exists>k<b. P (a + k)"
    then obtain k where "k < b" "P (a + k)" by blast
    then have "a + k < a + b" by simp
    with \<open>P (a + k)\<close> show ?thesis by blast
  qed
qed

lemma writeExchange_body_eq:
  "writeExchange_body fails ents trips coocs aid x date now today st =
     (if \<exists>k<statement_count ents trips coocs. fails k then Inl SqliteError
      else (let st1 = upsert_all_entities st ents aid now;
                r = add_all_triples st1 trips x date aid now today;
                st3 = upsert_all_cooccurrences (snd r) coocs now
            in Inr (fst r, st3)))"
proof -
  let ?ne = "length ents" and ?nt = "2 * length trips" and ?nc = "length coocs"
  have split: "(\<exists>k<statement_count ents trips coocs. fails k)
      = ((\<exists>k<?ne. fails k) \<or> (\<exists>k<?nt. fails (?ne + k)) \<or> (\<exists>k<?nc. fails (?ne + ?nt + k)))"
    unfolding statement_count_def
    using ex_less_add_split[of "?ne + ?nt" ?nc fails] ex_less_add_split[of ?ne ?nt fails]
    by simp
  have r: "register_entities fails 0 st ents aid now =
     (if \<exists>k<?ne. fails k then Inl SqliteError
      else Inr (?ne, upsert_all_entities st ents aid now))"
    using register_entities_eq[of fails 0 st ents aid now] by simp
  show ?thesis
    unfolding writeExchange_body_def r split
    by (simp add: write_triples_eq update_cooccurrences_eq Let_def del: ex_simps)
qed

lemma find_Some_props: "find P xs = Some x \<Longrightarrow> P x \<and> x \<in> set xs"
  by (induction xs) (auto split: if_splits)

lemma addTriple_shape:
  "(\<exists>f. (\<forall>t. tid (f t) = tid t \<and> subject (f t) = subject t \<and> predicate (f t) = predicate t
            \<and> object (f t) = object t \<and> agent_id (f t) = agent_id t)
        \<and> triples (snd (addTriple st subj pred obj conf x d agentId pend now today))
            = map f (triples st))
   \<or> (\<exists>new. triples (snd (addTriple st subj pred obj conf x d agentId pend now today))
            = triples st @ [new])"
proof (cases "findTriple st (normalizeEntityId subj) pred (normalizeEntityId obj)
                (or_string agentId ''main'')")
  case None
  have "triples (snd (addTriple st subj pred obj conf x d agentId pend now today))
          = triples st @ [\<lparr>tid = next_rowid st, subject = normalizeEntityId subj,
              predicate = pred, object = normalizeEntityId obj, confidence = or_real conf 1,
              source_exchange_id = or_null x, source_date = or_string d today,
              created_at = now, updated_at = now, agent_id = or_string agentId ''main'',
              pending_resolution = pend\<rparr>]"
    by (simp add: addTriple_def None insertTriple_def Let_def)
  then show ?thesis by blast
next
  case (Some ex)
  let ?f = "\<lambda>t. if tid t = tid ex
                 then t\<lparr>confidence := max (confidence t) (or_real conf 1), updated_at := now\<rparr>
                 else t"
  show ?thesis
  proof (rule disjI1, rule exI[of _ ?f], rule conjI)
    show "\<forall>t. tid (?f t) = tid t \<and> subject (?f t) = subject t
      \<and> predicate (?f t) = predicate t \<and> object (?f t) = object t \<and> agent_id (?f t) = agent_id t"
      by simp
    show "triples (snd (addTriple st subj pred obj conf x d agentId pend now today))
          = map ?f (triples st)"
      by (simp add: addTriple_def Some updateTripleConfidence_def Let_def)
  qed
qed

lemma addTriple_keeps_row:
  assumes "\<exists>t \<in> set (triples st). tid t = i \<and> subject t = s \<and> predicate t = p \<and> object t = ob
             \<and> agent_id t = a"
  shows "\<exists>t \<in> set (triples (snd (addTriple st subj pred obj conf x d agentId pend now today))).
           tid t = i \<and> subject t = s \<and> predicate t = p \<and> object t = ob \<and> agent_id t = a"
proof -
  from assms obtain t where t: "t \<in> set (triples st)" "tid t = i" "subject t = s"
    "predicate t = p" "object t = ob" "agent_id t = a" by blast
  from addTriple_shape[of st subj pred obj conf x d agentId pend now today]
  show ?thesis
  proof (elim disjE exE conjE)
    fix f
    assume f: "\<forall>t. tid (f t) = tid t \<and> subject (f t) = subject t \<and> predicate (f t) = predicate t
            \<and> object (f t) = object t \<and> agent_id (f t) = agent_id t"
      and m: "triples (snd (addTriple st subj pred obj conf x d agentId pend now today))
            = map f (triples st)"
    have "f t \<in> set (map f (triples st))" using t(1) by simp
    with f t m show ?thesis by metis
  next
    fix new
    assume "triples (snd (addTriple st subj pred obj conf x d agentId pend now today))
            = triples st @ [new]"
    with t show ?thesis by auto
  qed
qed

lemma addTriple_has_row:
  "\<exists>t \<in> set (triples (snd (addTriple st subj pred obj conf x d agentId pend now today))).
     tid t = fst (addTriple st subj pred obj conf x d agentId pend now today)
     \<and> subject t = normalizeEntityId subj \<and> predicate t = pred
     \<and> object t = normalizeEntityId obj \<and> agent_id t = or_string agentId ''main''"
proof -
  from findTriple_after_addTriple[of st subj pred obj conf x d agentId pend now today]
  obtain ex where ex: "findTriple (snd (addTriple st subj pred obj conf x d agentId pend now today))
           (normalizeEntityId subj) pred (normalizeEntityId obj) (or_string agentId ''main'')
         = Some ex"
    "tid ex = fst (addTriple st subj pred obj conf x d agentId pend now today)" by blast
  from find_Some_props[OF ex(1)[unfolded findTriple_def]] ex(2) show ?thesis by blast
qed

lemma add_all_triples_keeps_row:
  "\<exists>t \<in> set (triples st). tid t = i \<and> subject t = s \<and> predicate t = p \<and> object t = ob
             \<and> agent_id t = a \<Longrightarrow>
   \<exists>t \<in> set (triples (snd (add_all_triples st trips x date aid now today))).
           tid t = i \<and> subject t = s \<and> predicate t = p \<and> object t = ob \<and> agent_id t = a"
proof (induction trips arbitrary: st)
  case Nil
  then show ?case by simp
next
  case (Cons t trips)
  let ?st' = "snd (addTriple st (x_subject t) (x_predicate t) (x_object t) (x_confidence t)
                       x (Some date) (Some aid) False now today)"
  have "\<exists>t \<in> set (triples ?st'). tid t = i \<and> subject t = s \<and> predicate t = p \<and> object t = ob
             \<and> agent_id t = a"
    using Cons.prems by (rule addTriple_keeps_row)
  from Cons.IH[OF this] show ?case by (simp add: split_beta Let_def)
qed

lemma length_add_all_triples:
  "length (fst (add_all_triples st trips x date aid now today)) = length trips"
  by (induction trips arbitrary: st) (simp_all add: split_beta Let_def)

lemma add_all_triples_rows:
  "j < length trips \<Longrightarrow>
   \<exists>t \<in> set (triples (snd (add_all_triples st trips x date aid now today))).
     tid t = fst (add_all_triples st trips x date aid now today) ! j
     \<and> subject t = normalizeEntityId (x_subject (trips ! j))
     \<and> predicate t = x_predicate (trips ! j)
     \<and> object t = normalizeEntityId (x_object (trips ! j))
     \<and> agent_id t = or_string (Some aid) ''main''"
proof (induction trips arbitrary: st j)
  case Nil
  then show ?case by simp
next
  case (Cons t trips)
  let ?r = "addTriple st (x_subject t) (x_predicate t) (x_object t) (x_confidence t)
                       x (Some date) (Some aid) False now today"
  show ?case
  proof (cases j)
    case 0
    from add_all_triples_keeps_row[OF addTriple_has_row, of st "x_subject t" "x_predicate t"
        "x_object t" "x_confidence t" x "Some date" "Some aid" False now today trips x date aid
        now today]
    show ?thesis using 0 by (simp add: split_beta Let_def)
  next
    case (Suc k)
    with Cons.prems have "k < length trips" by simp
    from Cons.IH[OF this, of "snd ?r"] show ?thesis using Suc by (simp add: split_beta Let_def)
  qed
qed

lemma triples_upsertCooccurrence: "triples (upsertCooccurrence st a b now) = triples st"
  by (simp add: upsertCooccurrence_def)

lemma triples_upsert_all_cooccurrences:
  "triples (upsert_all_cooccurrences st coocs now) = triples st"
  unfolding upsert_all_cooccurrences_def
  by (induction coocs arbitrary: st) (simp_all add: split_beta triples_upsertCooccurrence)

lemma upsertCooccurrence_shape:
  "(\<exists>f. (\<forall>c. entity_a (f c) = entity_a c \<and> entity_b (f c) = entity_b c)
        \<and> (\<exists>c \<in> set (cooccurrences st). entity_a c = a \<and> entity_b c = b)
        \<and> cooccurrences (upsertCooccurrence st a b now) = map f (cooccurrences st))
   \<or> (\<exists>new. entity_a new = a \<and> entity_b new = b
        \<and> cooccurrences (upsertCooccurrence st a b now) = cooccurrences st @ [new])"
proof (cases "\<exists>c \<in> set (cooccurrences st). entity_a c = a \<and> entity_b c = b")
  case True
  let ?f = "\<lambda>c. if entity_a c = a \<and> entity_b c = b
                 then c\<lparr>c_count := c_count c + 1, c_last_seen := now\<rparr> else c"
  show ?thesis
  proof (rule disjI1, rule exI[of _ ?f], intro conjI)
    show "\<forall>c. entity_a (?f c) = entity_a c \<and> entity_b (?f c) = entity_b c" by simp
    show "\<exists>c \<in> set (cooccurrences st). entity_a c = a \<and> entity_b c = b" by (rule True)
    show "cooccurrences (upsertCooccurrence st a b now) = map ?f (cooccurrences st)"
      using True by (simp add: upsertCooccurrence_def)
  qed
next
  case False
  let ?new = "\<lparr>entity_a = a, entity_b = b, c_count = 1, c_last_seen = now\<rparr>"
  show ?thesis
  proof (rule disjI2, rule exI[of _ ?new], intro conjI)
    show "entity_a ?new = a" "entity_b ?new = b" by simp_all
    show "cooccurrences (upsertCooccurrence st a b now) = cooccurrences st @ [?new]"
      using False by (simp add: upsertCooccurrence_def)
  qed
qed

lemma upsertCooccurrence_sorted:
  assumes "a \<le> b" "\<forall>c \<in> set (cooccurrences st). entity_a c \<le> entity_b c"
  shows "\<forall>c \<in> set (cooccurrences (upsertCooccurrence st a b now)). entity_a c \<le> entity_b c"
  using upsertCooccurrence_shape[of st a b now]
proof (elim disjE exE conjE)
  fix f
  assume f: "\<forall>c. entity_a (f c) = entity_a c \<and> entity_b (f c) = entity_b c"
    and m: "cooccurrences (upsertCooccurrence st a b now) = map f (cooccurrences st)"
  show ?thesis unfolding m using f assms(2) by auto
next
  fix new
  assume "entity_a new = a" "entity_b new = b"
    "cooccurrences (upsertCooccurrence st a b now) = cooccurrences st @ [new]"
  with assms show ?thesis by auto
qed

lemma upsertCooccurrence_keeps_row:
  assumes "\<exists>c \<in> set (cooccurrences st). entity_a c = a' \<and> entity_b c = b'"
  shows "\<exists>c \<in> set (cooccurrences (upsertCooccurrence st a b now)).
           entity_a c = a' \<and> entity_b c = b'"
proof -
  from assms obtain c where c: "c \<in> set (cooccurrences st)" "entity_a c = a'" "entity_b c = b'"
    by blast
  from upsertCooccurrence_shape[of st a b now] show ?thesis
  proof (elim disjE exE conjE)
    fix f
    assume f: "\<forall>c. entity_a (f c) = entity_a c \<and> entity_b (f c) = entity_b c"
      and m: "cooccurrences (upsertCooccurrence st a b now) = map f (cooccurrences st)"
    have "f c \<in> set (map f (cooccurrences st))" using c(1) by simp
    with f c m show ?thesis by metis
  next
    fix new
    assume "cooccurrences (upsertCooccurrence st a b now) = cooccurrences st @ [new]"
    with c show ?thesis by auto
  qed
qed

lemma upsertCooccurrence_has_row:
  "\<exists>c \<in> set (cooccurrences (upsertCooccurrence st a b now)). entity_a c = a \<and> entity_b c = b"
proof (cases "\<exists>c \<in> set (cooccurrences st). entity_a c = a \<and> entity_b c = b")
  case True
  then show ?thesis by (rule upsertCooccurrence_keeps_row)
next
  case False
  have "cooccurrences (upsertCooccurrence st a b now)
          = cooccurrences st @ [\<lparr>entity_a = a, entity_b = b, c_count = 1, c_last_seen = now\<rparr>]"
    unfolding upsertCooccurrence_def using False by (simp only: if_False) simp
  then show ?thesis by simp
qed

lemma min_le_max_string: "min a b \<le> max a b" for a b :: string
  by (rule order_trans[OF min.cobounded1 max.cobounded1])

lemma upsert_all_cooccurrences_Cons:
  "upsert_all_cooccurrences st (p # coocs) now =
     upsert_all_cooccurrences
       (upsertCooccurrence st (min (normalizeEntityId (fst p)) (normalizeEntityId (snd p)))
          (max (normalizeEntityId (fst p)) (normalizeEntityId (snd p))) now) coocs now"
  by (simp add: upsert_all_cooccurrences_def split_beta)

lemma upsert_all_cooccurrences_sorted:
  "\<forall>c \<in> set (cooccurrences st). entity_a c \<le> entity_b c \<Longrightarrow>
   \<forall>c \<in> set (cooccurrences (upsert_all_cooccurrences st coocs now)). entity_a c \<le> entity_b c"
proof (induction coocs arbitrary: st)
  case Nil
  then show ?case by (simp add: upsert_all_cooccurrences_def)
next
  case (Cons p coocs)
  let ?a = "min (normalizeEntityId (fst p)) (normalizeEntityId (snd p))"
  let ?b = "max (normalizeEntityId (fst p)) (normalizeEntityId (snd p))"
  have "?a \<le> ?b" by (rule min_le_max_string)
  from Cons.IH[OF upsertCooccurrence_sorted[OF this Cons.prems]]
  show ?case unfolding upsert_all_cooccurrences_Cons .
qed

lemma upsert_all_cooccurrences_keeps_row:
  "\<exists>c \<in> set (cooccurrences st). entity_a c = a' \<and> entity_b c = b' \<Longrightarrow>
   \<exists>c \<in> set (cooccurrences (upsert_all_cooccurrences st coocs now)).
      entity_a c = a' \<and> entity_b c = b'"
proof (induction coocs arbitrary: st)
  case Nil
  then show ?case by (simp add: upsert_all_cooccurrences_def)
next
  case (Cons p coocs)
  from Cons.IH[OF upsertCooccurrence_keeps_row[OF Cons.prems]]
  show ?case unfolding upsert_all_cooccurrences_Cons .
qed

lemma upsert_all_cooccurrences_rows:
  "p \<in> set coocs \<Longrightarrow>
   \<exists>c \<in> set (cooccurrences (upsert_all_cooccurrences st coocs now)).
      entity_a c = min (normalizeEntityId (fst p)) (normalizeEntityId (snd p))
      \<and> entity_b c = max (normalizeEntityId (fst p)) (normalizeEntityId (snd p))"
proof (induction coocs arbitrary: st)
  case Nil
  then show ?case by simp
next
  case (Cons q coocs)
  show ?case
  proof (cases "p = q")
    case True
    from upsert_all_cooccurrences_keeps_row[OF upsertCooccurrence_has_row]
    show ?thesis unfolding upsert_all_cooccurrences_Cons True .
  next
    case False
    with Cons.prems have "p \<in> set coocs" by simp
    from Cons.IH[OF this] show ?thesis unfolding upsert_all_cooccurrences_Cons .
  qed
qed

lemma or_string_main_idem: "or_string (Some (or_string x ''main'')) ''main'' = or_string x ''main''"
  by (simp add: or_string_def split: option.splits)

text \<open>
  Claim C3. \<open>writeExchange\<close> is all or nothing. When any of the statements of the batch
  throws, the call ends with the error and the store is the store before the call: no
  entity, triple or co-occurrence of the batch is in it. When none throws, the store is
  the result of upserting all entities, then adding all triples by \<open>addTriple\<close>, then
  upserting all pairs, each normalized and ordered. The list returned has one id per input
  triple, in input order: the j-th id is that of a row holding the j-th triple's
  normalized subject, predicate, normalized object and the agent. Every pair of the batch
  has its row with \<open>entity_a \<le> entity_b\<close>, and a table whose rows are ordered so stays
  ordered so.
\<close>

theorem writeExchange_atomic:
  "(let aid = or_string agentId ''main''; date = or_string sourceDate today;
        r = writeExchange st ents trips coocs agentId x sourceDate fails now today;
        st1 = upsert_all_entities st ents aid now;
        ids = fst (add_all_triples st1 trips x date aid now today);
        st2 = snd (add_all_triples st1 trips x date aid now today);
        st3 = upsert_all_cooccurrences st2 coocs now
    in ((\<exists>k<statement_count ents trips coocs. fails k) \<longrightarrow> r = (Inl SqliteError, st))
     \<and> ((\<forall>k<statement_count ents trips coocs. \<not> fails k) \<longrightarrow> r = (Inr ids, st3))
     \<and> length ids = length trips
     \<and> (\<forall>j<length trips. \<exists>t \<in> set (triples st3).
           tid t = ids ! j
           \<and> subject t = normalizeEntityId (x_subject (trips ! j))
           \<and> predicate t = x_predicate (trips ! j)
           \<and> object t = normalizeEntityId (x_object (trips ! j))
           \<and> agent_id t = aid)
     \<and> ((\<forall>c \<in> set (cooccurrences st). entity_a c \<le> entity_b c)
          \<longrightarrow> (\<forall>c \<in> set (cooccurrences st3). entity_a c \<le> entity_b c))
     \<and> (\<forall>p \<in> set coocs. \<exists>c \<in> set (cooccurrences st3).
           entity_a c = min (normalizeEntityId (fst p)) (normalizeEntityId (snd p))
           \<and> entity_b c = max (normalizeEntityId (fst p)) (normalizeEntityId (snd p))
           \<and> entity_a c \<le> entity_b c))"
proof -
  define aid where "aid = or_string agentId ''main''"
  define date where "date = or_string sourceDate today"
  define r where "r = writeExchange st ents trips coocs agentId x sourceDate fails now today"
  define st1 where "st1 = upsert_all_entities st ents aid now"
  define ids where "ids = fst (add_all_triples st1 trips x date aid now today)"
  define st2 where "st2 = snd (add_all_triples st1 trips x date aid now today)"
  define st3 where "st3 = upsert_all_cooccurrences st2 coocs now"
  have r_eq: "r = (if \<exists>k<statement_count ents trips coocs. fails k then (Inl SqliteError, st)
                   else (Inr ids, st3))"
    unfolding r_def writeExchange_def Let_def transaction_def writeExchange_body_eq
    by (simp add: Let_def aid_def date_def st1_def ids_def st2_def st3_def)
  have 1: "(\<exists>k<statement_count ents trips coocs. fails k) \<longrightarrow> r = (Inl SqliteError, st)"
    using r_eq by simp
  have 2: "(\<forall>k<statement_count ents trips coocs. \<not> fails k) \<longrightarrow> r = (Inr ids, st3)"
    using r_eq by auto
  have 3: "length ids = length trips" unfolding ids_def by (rule length_add_all_triples)
  have 4: "\<forall>j<length trips. \<exists>t \<in> set (triples st3).
           tid t = ids ! j
           \<and> subject t = normalizeEntityId (x_subject (trips ! j))
           \<and> predicate t = x_predicate (trips ! j)
           \<and> object t = normalizeEntityId (x_object (trips ! j))
           \<and> agent_id t = aid"
  proof (intro allI impI)
    fix j assume "j < length trips"
    from add_all_triples_rows[OF this, of st1 x date aid now today]
    show "\<exists>t \<in> set (triples st3).
           tid t = ids ! j
           \<and> subject t = normalizeEntityId (x_subject (trips ! j))
           \<and> predicate t = x_predicate (trips ! j)
           \<and> object t = normalizeEntityId (x_object (trips ! j))
           \<and> agent_id t = aid"
      unfolding st3_def triples_upsert_all_cooccurrences st2_def ids_def
      by (simp add: aid_def or_string_main_idem)
  qed
  have c0: "cooccurrences st2 = cooccurrences st"
  proof -
    have a: "cooccurrences (snd (upsertEntity s n t a now)) = cooccurrences s" for s n t a
      by (simp add: upsertEntity_def Let_def)
    have "cooccurrences (upsert_all_entities s ents aid now) = cooccurrences s" for s
      unfolding upsert_all_entities_def by (induction ents arbitrary: s) (simp_all add: a)
    moreover have b: "cooccurrences (snd (addTriple s su p ob c x d a pe now today))
                        = cooccurrences s" for s su p ob c x d a pe
      by (simp add: addTriple_def Let_def updateTripleConfidence_def insertTriple_def
          split: option.splits)
    have "cooccurrences (snd (add_all_triples s trips x date aid now today)) = cooccurrences s"
      for s
      by (induction trips arbitrary: s) (simp_all add: split_beta Let_def b)
    ultimately show ?thesis unfolding st2_def st1_def by simp
  qed
  have 5: "(\<forall>c \<in> set (cooccurrences st). entity_a c \<le> entity_b c)
          \<longrightarrow> (\<forall>c \<in> set (cooccurrences st3). entity_a c \<le> entity_b c)"
    unfolding st3_def using upsert_all_cooccurrences_sorted[of st2 coocs now] c0 by simp
  have 6: "\<forall>p \<in> set coocs. \<exists>c \<in> set (cooccurrences st3).
           entity_a c = min (normalizeEntityId (fst p)) (normalizeEntityId (snd p))
           \<and> entity_b c = max (normalizeEntityId (fst p)) (normalizeEntityId (snd p))
           \<and> entity_a c \<le> entity_b c"
  proof
    fix p assume "p \<in> set coocs"
    from upsert_all_cooccurrences_rows[OF this, of st2 now]
    obtain c where c: "c \<in> set (cooccurrences st3)"
      "entity_a c = min (normalizeEntityId (fst p)) (normalizeEntityId (snd p))"
      "entity_b c = max (normalizeEntityId (fst p)) (normalizeEntityId (snd p))"
      unfolding st3_def by blast
    then have "entity_a c \<le> entity_b c" by (simp add: min_le_max_string)
    with c show "\<exists>c \<in> set (cooccurrences st3).
           entity_a c = min (normalizeEntityId (fst p)) (normalizeEntityId (snd p))
           \<and> entity_b c = max (normalizeEntityId (fst p)) (normalizeEntityId (snd p))
           \<and> entity_a c \<le> entity_b c" by blast
  qed
  show ?thesis
    unfolding Let_def
    using 1 2 3 4 5 6
    unfolding aid_def date_def r_def st1_def ids_def st2_def st3_def
    by blast
qed

lemma str_order: "min ''paris'' ''alice'' = ''alice''" "max ''paris'' ''alice'' = ''paris''"
  by code_simp+

lemma batch_count: "statement_count batch_entities batch_triples batch_pairs = 5"
  by (simp add: statement_count_def batch_entities_def batch_triples_def batch_pairs_def)

lemma batch_run:
  "upsert_all_cooccurrences
     (snd (add_all_triples (upsert_all_entities empty_store batch_entities ''main'' 1)
             batch_triples (Some ''E1'') ''2024-01-01'' ''main'' 1 ''2024-01-01''))
     batch_pairs 1 = store_E1"
  "fst (add_all_triples (upsert_all_entities empty_store batch_entities ''main'' 1)
             batch_triples (Some ''E1'') ''2024-01-01'' ''main'' 1 ''2024-01-01'') = [1]"
  by (simp_all add: upsert_all_entities_def batch_entities_def batch_triples_def batch_pairs_def
      upsert_all_cooccurrences_def empty_store_def upsertEntity_def upsertEntity_stmt_def
      addTriple_def findTriple_def insertTriple_def next_rowid_def upsertCooccurrence_def
      norm_Alice norm_Paris str_order or_string_def or_real_def or_null_def Let_def
      store_E1_def row1_def)

theorem writeExchange_witness:
  "writeExchange empty_store batch_entities batch_triples batch_pairs None (Some ''E1'')
     (Some ''2024-01-01'') (\<lambda>k. k = 4) 1 ''2024-01-01'' = (Inl SqliteError, empty_store)
   \<and> writeExchange empty_store batch_entities batch_triples batch_pairs None (Some ''E1'')
     (Some ''2024-01-01'') (\<lambda>k. False) 1 ''2024-01-01'' = (Inr [1], store_E1)
   \<and> store_E1 \<noteq> empty_store"
proof -
  have o: "or_string None ''main'' = ''main''"
    "or_string (Some ''2024-01-01'') ''2024-01-01'' = ''2024-01-01''"
    by (simp_all add: or_string_def)
  note t1 = writeExchange_atomic[where ents = batch_entities and trips = batch_triples
      and coocs = batch_pairs and fails = "\<lambda>k. k = 4" and st = empty_store and agentId = None
      and x = "Some ''E1''" and sourceDate = "Some ''2024-01-01''" and now = 1
      and today = "''2024-01-01''",
      unfolded Let_def batch_count o, THEN conjunct1]
  note t2 = writeExchange_atomic[where ents = batch_entities and trips = batch_triples
      and coocs = batch_pairs and fails = "\<lambda>k. False" and st = empty_store and agentId = None
      and x = "Some ''E1''" and sourceDate = "Some ''2024-01-01''" and now = 1
      and today = "''2024-01-01''",
      unfolded Let_def batch_count o batch_run, THEN conjunct2, THEN conjunct1]
  have "\<exists>k<5::nat. k = 4" by simp
  with t1 have 1: "writeExchange empty_store batch_entities batch_triples batch_pairs None
     (Some ''E1'') (Some ''2024-01-01'') (\<lambda>k. k = 4) 1 ''2024-01-01''
       = (Inl SqliteError, empty_store)" by blast
  from t2 have 2: "writeExchange empty_store batch_entities batch_triples batch_pairs None
     (Some ''E1'') (Some ''2024-01-01'') (\<lambda>k. False) 1 ''2024-01-01'' = (Inr [1], store_E1)"
    by blast
  have 3: "store_E1 \<noteq> empty_store" by (simp add: store_E1_def empty_store_def)
  from 1 2 3 show ?thesis by blast
qed

lemma cooccurrences_upsert_all_entities:
  "cooccurrences (upsert_all_entities s ents aid now) = cooccurrences s"
  unfolding upsert_all_entities_def
  by (induction ents arbitrary: s) (simp_all add: upsertEntity_def Let_def)

lemma cooccurrences_addTriple:
  "cooccurrences (snd (addTriple s su p ob c x d a pe now today)) = cooccurrences s"
  by (simp add: addTriple_def Let_def updateTripleConfidence_def insertTriple_def
      split: option.splits)

lemma cooccurrences_add_all_triples:
  "cooccurrences (snd (add_all_triples s trips x date aid now today)) = cooccurrences s"
  by (induction trips arbitrary: s) (simp_all add: split_beta Let_def cooccurrences_addTriple)

lemma cooccurrences_upsert_only:
  "cooccurrences s = cooccurrences s' \<Longrightarrow>
   cooccurrences (upsertCooccurrence s a b now) = cooccurrences (upsertCooccurrence s' a b now)"
  by (simp add: upsertCooccurrence_def)

lemma cooccurrences_upsert_all_only:
  "cooccurrences s = cooccurrences s' \<Longrightarrow>
   cooccurrences (upsert_all_cooccurrences s coocs now)
     = cooccurrences (upsert_all_cooccurrences s' coocs now)"
proof (induction coocs arbitrary: s s')
  case Nil
  then show ?case by (simp add: upsert_all_cooccurrences_def)
next
  case (Cons p coocs)
  from Cons.IH[OF cooccurrences_upsert_only[OF Cons.prems]]
  show ?case unfolding upsert_all_cooccurrences_Cons .
qed

lemma writeExchange_cooccurrences:
  "cooccurrences (snd (writeExchange st ents trips coocs agentId x d fails now today))
     = (if \<exists>k<statement_count ents trips coocs. fails k then cooccurrences st
        else cooccurrences (upsert_all_cooccurrences st coocs now))"
proof -
  let ?aid = "or_string agentId ''main''" and ?date = "or_string d today"
  let ?st2 = "snd (add_all_triples (upsert_all_entities st ents ?aid now) trips x ?date ?aid
                     now today)"
  have "cooccurrences ?st2 = cooccurrences st"
    by (simp add: cooccurrences_add_all_triples cooccurrences_upsert_all_entities)
  from cooccurrences_upsert_all_only[OF this]
  show ?thesis
    unfolding writeExchange_def Let_def transaction_def writeExchange_body_eq
    by (auto simp: Let_def)
qed

section \<open>Statistics\<close>

text \<open>
  Claim C6. \<open>getStats\<close> counts the entity rows and the triple rows of the given agent
  (\<open>main\<close> when none is given); its recent entities are rows of that agent, at most 10,
  latest \<open>last_seen\<close> first. Its top co-occurrences are the first 10 of all rows of the
  co-occurrence table by descending count: the list is the same for every agent id, the
  table has no agent column to scope it by, and the co-occurrence rows a batch leaves do
  not depend on the agent the batch is written for.
\<close>

theorem getStats_scoping:
  "entityCount (getStats st agentId)
     = length (filter (\<lambda>e. e_agent_id e = or_string agentId ''main'') (entities st))
   \<and> tripleCount (getStats st agentId)
     = length (filter (\<lambda>t. agent_id t = or_string agentId ''main'') (triples st))
   \<and> (\<forall>e \<in> set (recentEntities (getStats st agentId)).
         e \<in> set (entities st) \<and> e_agent_id e = or_string agentId ''main'')
   \<and> length (recentEntities (getStats st agentId)) \<le> 10
   \<and> sorted (map (\<lambda>e. - last_seen e) (recentEntities (getStats st agentId)))
   \<and> topCooccurrences (getStats st agentId)
     = take 10 (order_by_desc (\<lambda>c. int (c_count c)) (cooccurrences st))
   \<and> topCooccurrences (getStats st agentId) = topCooccurrences (getStats st agentId')
   \<and> length (topCooccurrences (getStats st agentId)) = min 10 (length (cooccurrences st))
   \<and> sorted (map (\<lambda>c. - int (c_count c)) (topCooccurrences (getStats st agentId)))
   \<and> set (topCooccurrences (getStats st agentId)) \<subseteq> set (cooccurrences st)
   \<and> cooccurrences (snd (writeExchange st ents trips coocs agentId x d fails now today))
     = cooccurrences (snd (writeExchange st ents trips coocs agentId' x d fails now today))"
proof -
  let ?aid = "or_string agentId ''main''"
  have r: "recentEntities (getStats st agentId)
             = take 10 (order_by_desc last_seen (filter (\<lambda>e. e_agent_id e = ?aid) (entities st)))"
    by (simp add: getStats_def Let_def)
  have c: "topCooccurrences (getStats st a)
             = take 10 (order_by_desc (\<lambda>c. int (c_count c)) (cooccurrences st))" for a
    by (simp add: getStats_def Let_def)
  have 1: "\<forall>e \<in> set (recentEntities (getStats st agentId)).
         e \<in> set (entities st) \<and> e_agent_id e = ?aid"
    unfolding r using set_take_order_by_desc[of 10 last_seen "filter (\<lambda>e. e_agent_id e = ?aid) (entities st)"]
    by auto
  have 2: "length (recentEntities (getStats st agentId)) \<le> 10" unfolding r by simp
  have 3: "sorted (map (\<lambda>e. - last_seen e) (recentEntities (getStats st agentId)))"
    unfolding r by (rule sorted_take_order_by_desc)
  have 4: "length (topCooccurrences (getStats st agentId)) = min 10 (length (cooccurrences st))"
    unfolding c by (rule length_take_order_by_desc)
  have 5: "sorted (map (\<lambda>c. - int (c_count c)) (topCooccurrences (getStats st agentId)))"
    unfolding c by (rule sorted_take_order_by_desc)
  have 6: "set (topCooccurrences (getStats st agentId)) \<subseteq> set (cooccurrences st)"
    unfolding c by (rule set_take_order_by_desc)
  have 7: "entityCount (getStats st agentId)
     = length (filter (\<lambda>e. e_agent_id e = ?aid) (entities st))"
    "tripleCount (getStats st agentId)
     = length (filter (\<lambda>t. agent_id t = ?aid) (triples st))"
    by (simp_all add: getStats_def Let_def)
  have 8: "cooccurrences (snd (writeExchange st ents trips coocs agentId x d fails now today))
     = cooccurrences (snd (writeExchange st ents trips coocs agentId' x d fails now today))"
    by (simp only: writeExchange_cooccurrences)
  show ?thesis using 1 2 3 4 5 6 7 8 c[of agentId] c[of agentId'] by simp
qed

theorem getStats_witness:
  "getStats store4 (Some ''other'')
     = \<lparr>entityCount = 1, tripleCount = 0, recentEntities = [bob_row],
        topCooccurrences = [alice_paris]\<rparr>
   \<and> getStats store4 None
     = \<lparr>entityCount = 1, tripleCount = 3, recentEntities = [alice_row],
        topCooccurrences = [alice_paris]\<rparr>"
proof -
  have e: "e_agent_id alice_row = ''main''" "e_agent_id bob_row = ''other''"
    by (simp_all add: alice_row_def bob_row_def)
  have s: "entities store4 = [alice_row, bob_row]" "triples store4 = [row1, row2, row3]"
    "cooccurrences store4 = [alice_paris]" by (simp_all add: store4_def)
  have o: "or_string (Some ''other'') ''main'' = ''other''" "or_string None ''main'' = ''main''"
    by (simp_all add: or_string_def)
  note t1 = getStats_scoping[of store4 "Some ''other''" None]
  note t2 = getStats_scoping[of store4 None None]
  have a: "entityCount (getStats store4 (Some ''other'')) = 1"
    "tripleCount (getStats store4 (Some ''other'')) = 0"
    "topCooccurrences (getStats store4 (Some ''other'')) = [alice_paris]"
    using t1 by (simp_all add: s o e rows_simps order_by_desc_def)
  have b: "entityCount (getStats store4 None) = 1"
    "tripleCount (getStats store4 None) = 3"
    "topCooccurrences (getStats store4 None) = [alice_paris]"
    using t2 by (simp_all add: s o e rows_simps order_by_desc_def)
  have c: "recentEntities (getStats store4 (Some ''other'')) = [bob_row]"
    "recentEntities (getStats store4 None) = [alice_row]"
    by (simp_all add: getStats_def Let_def s o e order_by_desc_def)
  have "getStats store4 (Some ''other'')
     = \<lparr>entityCount = 1, tripleCount = 0, recentEntities = [bob_row],
        topCooccurrences = [alice_paris]\<rparr>"
    using a c(1) by (cases "getStats store4 (Some ''other'')") simp
  moreover have "getStats store4 None
     = \<lparr>entityCount = 1, tripleCount = 3, recentEntities = [alice_row],
        topCooccurrences = [alice_paris]\<rparr>"
    using b c(2) by (cases "getStats store4 None") simp
  ultimately show ?thesis by simp
qed

section \<open>The searcher\<close>

subsection \<open>The nested loops as one loop\<close>

lemma hit_update_Direct:
  "hit_update boost (Direct n t) =
     (\<lambda>entry. entry\<lparr>sharedEntities := set_add (sharedEntities entry) (toLowerCase n),
           score := binary64_plus (score entry) (confidence_or_1 t),
           maxConfidence := max (maxConfidence entry) (confidence_or_1 t),
           newestDate := bump_date (newestDate entry) (source_date t)\<rparr>)"
  by (rule ext) simp

lemma hit_update_Cooc:
  "hit_update boost (Cooc c t) =
     (\<lambda>entry. entry\<lparr>score := binary64_plus (score entry)
                      (binary64_times boost (binary64_round (real (count_or_1 c)))),
           newestDate := bump_date (newestDate entry) (source_date t)\<rparr>)"
  by (rule ext) simp

lemma direct_step_hit: "direct_step n m t = hit_step boost m (Direct n t)"
  by (simp add: direct_step_def hit_step_def hit_update_Direct split: option.splits)

lemma cooc_step_hit: "cooc_step boost c m t = hit_step boost m (Cooc c t)"
  by (simp add: cooc_step_def hit_step_def hit_update_Cooc split: option.splits)

lemma foldl_direct: "foldl (direct_step n) m ts = foldl (hit_step boost) m (map (Direct n) ts)"
  by (induction ts arbitrary: m) (simp_all add: direct_step_hit[of n _ _ boost])

lemma foldl_cooc: "foldl (cooc_step boost c) m ts = foldl (hit_step boost) m (map (Cooc c) ts)"
  by (induction ts arbitrary: m) (simp_all add: cooc_step_hit)

lemma foldl_cooc_loop:
  "foldl (cooc_loop st boost aid n) m cs =
     foldl (hit_step boost) m
       (concat (map (\<lambda>cooc. map (Cooc cooc)
                       (getTriplesByNormalizedId st (coocEntityId n cooc) (Some aid) (Some 20))) cs))"
  by (induction cs arbitrary: m) (simp_all add: cooc_loop_def foldl_cooc)

lemma entity_step_hits:
  "entity_step st boost aid m e =
     foldl (hit_step boost) m (direct_hits st aid e @ cooc_hits st aid e)"
  by (simp add: entity_step_def Let_def direct_hits_def cooc_hits_def foldl_cooc_loop
      foldl_direct[of _ _ _ boost])

lemma foldl_entity_step:
  "foldl (entity_step st boost aid) m qes = foldl (hit_step boost) m (all_hits st aid qes)"
  by (induction qes arbitrary: m) (simp_all add: all_hits_def entity_step_hits)

lemma exchangeScores_hits:
  "exchangeScores config st aid qes
     = foldl (hit_step (cooccurrenceBoost config)) [] (all_hits st aid qes)"
  by (simp add: exchangeScores_def foldl_entity_step)

subsection \<open>First occurrences\<close>

lemma set_firsts_by_subset: "set (firsts_by key xs) \<subseteq> set xs"
  by (induction xs) auto

lemma keys_firsts_by: "key ` set (firsts_by key xs) = key ` set xs"
proof (induction xs)
  case Nil
  show ?case by simp
next
  case (Cons a xs)
  have "key ` set (filter (\<lambda>y. key y \<noteq> key a) (firsts_by key xs))
          = key ` set (firsts_by key xs) - {key a}"
    by auto
  then show ?case using Cons.IH by auto
qed

lemma firsts_by_snoc:
  "firsts_by key (xs @ [x]) =
     (if key x \<in> key ` set xs then firsts_by key xs else firsts_by key xs @ [x])"
  by (induction xs) auto

lemma distinct_firsts_by: "distinct (map key (firsts_by key xs))"
  by (induction xs) (auto simp: distinct_map_filter)

lemma set_firsts: "set (firsts_by (\<lambda>n. n) xs) = set xs"
  using keys_firsts_by[of "\<lambda>n. n" xs] by simp

lemma distinct_firsts: "distinct (firsts_by (\<lambda>n. n) xs)"
  using distinct_firsts_by[of "\<lambda>n. n" xs] by simp

lemma length_firsts: "length (firsts_by (\<lambda>n. n) xs) = card (set xs)"
  using distinct_card[OF distinct_firsts[of xs]] by (simp add: set_firsts)

lemma firsts_snoc:
  "firsts_by (\<lambda>n. n) (xs @ [x]) = set_add (firsts_by (\<lambda>n. n) xs) x"
  by (simp add: firsts_by_snoc set_add_def set_firsts)

subsection \<open>The merged entity list\<close>

lemma merge_gazetteer_firsts:
  "merge_gazetteer q N gs =
     q @ filter (\<lambda>g. toLowerCase (ent_name g) \<notin> N)
           (firsts_by (\<lambda>g. toLowerCase (ent_name g)) gs)"
proof (induction gs arbitrary: q N)
  case Nil
  show ?case by simp
next
  case (Cons g gs)
  let ?L = "\<lambda>g. toLowerCase (ent_name g)"
  show ?case
  proof (cases "?L g \<in> N")
    case True
    have "filter (\<lambda>h. ?L h \<notin> N) (filter (\<lambda>h. ?L h \<noteq> ?L g) (firsts_by ?L gs))
            = filter (\<lambda>h. ?L h \<notin> N) (firsts_by ?L gs)"
      unfolding filter_filter by (rule filter_cong) (use True in auto)
    with True Cons.IH[of q N] show ?thesis by simp
  next
    case False
    have "filter (\<lambda>h. ?L h \<notin> N) (filter (\<lambda>h. ?L h \<noteq> ?L g) (firsts_by ?L gs))
            = filter (\<lambda>h. ?L h \<notin> insert (?L g) N) (firsts_by ?L gs)"
      unfolding filter_filter by (rule filter_cong) auto
    with False Cons.IH[of "q @ [g]" "insert (?L g) N"] show ?thesis by simp
  qed
qed

lemma merged_entities_claimed:
  "merged_entities extracted gazetteered = claimed_entities extracted gazetteered"
proof -
  have k: "(a \<notin> (\<lambda>e. toLowerCase (ent_name e)) ` S)
             = (\<forall>e \<in> S. toLowerCase (ent_name e) \<noteq> a)" for a S
    by blast
  have "filter (\<lambda>g. toLowerCase (ent_name g) \<notin> set (map (\<lambda>e. toLowerCase (ent_name e)) extracted))
          (firsts_by (\<lambda>g. toLowerCase (ent_name g)) gazetteered)
        = filter (\<lambda>g. \<forall>e \<in> set extracted. toLowerCase (ent_name e) \<noteq> toLowerCase (ent_name g))
          (firsts_by (\<lambda>g. toLowerCase (ent_name g)) gazetteered)"
    by (rule filter_cong[OF refl]) (simp add: k)
  then show ?thesis
    unfolding merged_entities_def claimed_entities_def merge_gazetteer_firsts by simp
qed

subsection \<open>The hits as described\<close>

lemma hit_exchange_claimed: "hit_exchange h = claimed_exchange h"
  by (cases h) (simp_all add: claimed_exchange_def or_null_def)

lemma or_string_Some: "a \<noteq> [] \<Longrightarrow> or_string (Some a) d = a"
  by (simp add: or_string_def)

lemma getCooccurrences_5: "getCooccurrences st n (Some 5) = claimed_cooccurrences st n"
  by (simp add: getCooccurrences_def claimed_cooccurrences_def or_nat_def order_by_desc_def Let_def)

lemma coocEntityId_claimed: "coocEntityId n c = claimed_other_side n c"
  by (simp add: coocEntityId_def claimed_other_side_def Let_def)

lemma getTriplesByNormalizedId_20:
  assumes "aid \<noteq> []"
  shows "getTriplesByNormalizedId st i (Some aid) (Some 20) = claimed_triples_of st aid i"
proof -
  have "filter (\<lambda>t. object t = i \<and> agent_id t = aid \<and> subject t \<noteq> i) (triples st)
          = filter (\<lambda>t. subject t \<noteq> i \<and> object t = i \<and> agent_id t = aid) (triples st)"
    by (rule filter_cong) auto
  then show ?thesis
    by (simp add: getTriplesByNormalizedId_def claimed_triples_of_def or_string_Some[OF assms]
        or_nat_def order_by_desc_def Let_def)
qed

lemma all_hits_claimed:
  assumes "aid \<noteq> []"
  shows "all_hits st aid es = claimed_hits st aid es"
  by (simp add: all_hits_def claimed_hits_def direct_hits_def cooc_hits_def getCooccurrences_5
      coocEntityId_claimed getTriplesByNormalizedId_20[OF assms])

subsection \<open>One hit more\<close>

lemma claimed_hits_of_snoc:
  "claimed_hits_of (hs @ [h]) x =
     (if claimed_exchange h = Some x then claimed_hits_of hs x @ [h] else claimed_hits_of hs x)"
  by (simp add: claimed_hits_of_def)

lemma entry_of_other:
  "claimed_exchange h \<noteq> Some x \<Longrightarrow> entry_of boost (hs @ [h]) x = entry_of boost hs x"
  by (simp add: entry_of_def claimed_score_def claimed_names_def claimed_maxConfidence_def
      claimed_date_def claimed_hits_of_snoc)

lemma entry_of_none: "claimed_hits_of hs x = [] \<Longrightarrow> entry_of boost hs x = new_entry x"
  by (simp add: entry_of_def new_entry_def claimed_score_def claimed_names_def
      claimed_maxConfidence_def claimed_date_def)

lemma bump_date_max:
  "bump_date newest d = Some (case newest of None \<Rightarrow> d | Some n \<Rightarrow> max n d)"
  by (auto simp: bump_date_def max_def split: option.splits)

lemma claimed_date_snoc:
  assumes "claimed_exchange h = Some x"
  shows "claimed_date (hs @ [h]) x = bump_date (claimed_date hs x) (source_date (hit_triple h))"
proof (cases "claimed_hits_of hs x")
  case Nil
  then show ?thesis using assms
    by (simp add: claimed_date_def claimed_hits_of_snoc bump_date_max)
next
  case (Cons a as)
  let ?ds = "map (\<lambda>h. source_date (hit_triple h)) (claimed_hits_of hs x)"
  have ne: "set ?ds \<noteq> {}" using Cons by simp
  have "Max (set (?ds @ [source_date (hit_triple h)]))
          = max (source_date (hit_triple h)) (Max (set ?ds))"
    using Max_insert[OF _ ne, of "source_date (hit_triple h)"] by simp
  then show ?thesis using assms Cons
    by (simp add: claimed_date_def claimed_hits_of_snoc bump_date_max max.commute)
qed

lemma claimed_score_snoc:
  assumes "claimed_exchange h = Some x"
  shows "claimed_score boost (hs @ [h]) x
           = binary64_plus (claimed_score boost hs x) (claimed_contribution boost h)"
  using assms by (simp add: claimed_score_def claimed_hits_of_snoc)

lemma claimed_names_snoc:
  assumes "claimed_exchange h = Some x"
  shows "claimed_names (hs @ [h]) x = claimed_names hs x @ claimed_name h"
  using assms by (simp add: claimed_names_def claimed_hits_of_snoc)

lemma claimed_maxConfidence_Direct:
  assumes "claimed_exchange (Direct n t) = Some x"
  shows "claimed_maxConfidence (hs @ [Direct n t]) x
           = max (claimed_maxConfidence hs x) (confidence_or_1 t)"
proof -
  let ?cs = "concat (map claimed_confidence (claimed_hits_of hs x))"
  have "Max (set (0 # ?cs @ [confidence_or_1 t])) = max (confidence_or_1 t) (Max (set (0 # ?cs)))"
    using Max_insert[of "set (0 # ?cs)" "confidence_or_1 t"] by (simp add: insert_commute)
  then show ?thesis using assms
    by (simp add: claimed_maxConfidence_def claimed_hits_of_snoc confidence_or_1_def max.commute)
qed

lemma claimed_maxConfidence_Cooc:
  assumes "claimed_exchange (Cooc c t) = Some x"
  shows "claimed_maxConfidence (hs @ [Cooc c t]) x = claimed_maxConfidence hs x"
  using assms by (simp add: claimed_maxConfidence_def claimed_hits_of_snoc)

lemma entry_of_hit:
  assumes "claimed_exchange h = Some x"
  shows "entry_of boost (hs @ [h]) x = hit_update boost h (entry_of boost hs x)"
proof (cases h)
  case (Direct n t)
  note a = assms[unfolded Direct]
  have s: "claimed_score boost (hs @ [Direct n t]) x
             = binary64_plus (claimed_score boost hs x) (confidence_or_1 t)"
    using claimed_score_snoc[OF a, of boost hs] by (simp add: confidence_or_1_def)
  have n: "firsts_by (\<lambda>n. n) (claimed_names (hs @ [Direct n t]) x)
             = set_add (firsts_by (\<lambda>n. n) (claimed_names hs x)) (toLowerCase n)"
    using claimed_names_snoc[OF a, of hs] by (simp add: firsts_snoc)
  have m: "claimed_maxConfidence (hs @ [Direct n t]) x
             = max (claimed_maxConfidence hs x) (confidence_or_1 t)"
    using a by (rule claimed_maxConfidence_Direct)
  have d: "claimed_date (hs @ [Direct n t]) x = bump_date (claimed_date hs x) (source_date t)"
    using claimed_date_snoc[OF a, of hs] by simp
  show ?thesis unfolding Direct by (simp add: entry_of_def s n m d)
next
  case (Cooc c t)
  note a = assms[unfolded Cooc]
  have s: "claimed_score boost (hs @ [Cooc c t]) x
             = binary64_plus (claimed_score boost hs x)
                 (binary64_times boost (binary64_round (real (count_or_1 c))))"
    using claimed_score_snoc[OF a, of boost hs] by (simp add: count_or_1_def)
  have n: "claimed_names (hs @ [Cooc c t]) x = claimed_names hs x"
    using claimed_names_snoc[OF a, of hs] by simp
  have m: "claimed_maxConfidence (hs @ [Cooc c t]) x = claimed_maxConfidence hs x"
    using a by (rule claimed_maxConfidence_Cooc)
  have d: "claimed_date (hs @ [Cooc c t]) x = bump_date (claimed_date hs x) (source_date t)"
    using claimed_date_snoc[OF a, of hs] by simp
  show ?thesis unfolding Cooc by (simp add: entry_of_def s n m d)
qed

subsection \<open>The map of entries\<close>

lemma map_filter_snoc:
  "List.map_filter f (xs @ [x]) = List.map_filter f xs @ (case f x of None \<Rightarrow> [] | Some y \<Rightarrow> [y])"
  by (simp add: List.map_filter_def split: option.splits)

lemma set_map_filter: "set (List.map_filter f xs) = {y. \<exists>x \<in> set xs. f x = Some y}"
  by (induction xs) (auto split: option.splits)

lemma set_claimed_exchange_ids:
  "set (claimed_exchange_ids hs) = {x. \<exists>h \<in> set hs. claimed_exchange h = Some x}"
  by (simp add: claimed_exchange_ids_def set_firsts set_map_filter)

lemma claimed_exchange_ids_snoc:
  "claimed_exchange_ids (hs @ [h]) =
     (case claimed_exchange h of
        None \<Rightarrow> claimed_exchange_ids hs
      | Some k \<Rightarrow> if k \<in> set (claimed_exchange_ids hs) then claimed_exchange_ids hs
                  else claimed_exchange_ids hs @ [k])"
proof (cases "claimed_exchange h")
  case None
  then show ?thesis by (simp add: claimed_exchange_ids_def map_filter_snoc)
next
  case (Some k)
  have "set (List.map_filter claimed_exchange hs) = set (claimed_exchange_ids hs)"
    by (simp add: claimed_exchange_ids_def set_firsts)
  then show ?thesis using Some
    by (simp add: claimed_exchange_ids_def map_filter_snoc firsts_by_snoc)
qed

lemma not_reached:
  assumes "k \<notin> set (claimed_exchange_ids hs)"
  shows "claimed_hits_of hs k = []"
  using assms by (auto simp: set_claimed_exchange_ids claimed_hits_of_def filter_empty_conv)

lemma update_ensure_map:
  assumes "k \<notin> set ids \<Longrightarrow> f k = new_entry k"
  shows "update_entry (ensure_entry (map (\<lambda>x. (x, f x)) ids) k) k g
         = map (\<lambda>x. (x, if x = k then g (f x) else f x)) (if k \<in> set ids then ids else ids @ [k])"
proof (cases "k \<in> set ids")
  case True
  then show ?thesis
    by (simp add: ensure_entry_def map_has_def update_entry_def o_def image_iff)
next
  case False
  with assms have "f k = new_entry k" by simp
  with False show ?thesis
    by (simp add: ensure_entry_def map_has_def update_entry_def o_def image_iff)
qed

lemma foldl_hit_step:
  "foldl (hit_step boost) [] hs
     = map (\<lambda>x. (x, entry_of boost hs x)) (claimed_exchange_ids hs)"
proof (induction hs rule: rev_induct)
  case Nil
  show ?case by (simp add: claimed_exchange_ids_def List.map_filter_def)
next
  case (snoc h hs)
  let ?ids = "claimed_exchange_ids hs"
  let ?m = "map (\<lambda>x. (x, entry_of boost hs x)) ?ids"
  have f: "foldl (hit_step boost) [] (hs @ [h]) = hit_step boost ?m h"
    using snoc.IH by simp
  show ?case
  proof (cases "claimed_exchange h")
    case None
    then have "\<And>x. claimed_exchange h \<noteq> Some x" by simp
    then have e: "\<And>x. entry_of boost (hs @ [h]) x = entry_of boost hs x"
      by (rule entry_of_other)
    have i: "claimed_exchange_ids (hs @ [h]) = ?ids"
      using None by (simp add: claimed_exchange_ids_snoc)
    have "hit_step boost ?m h = ?m"
      using None by (simp add: hit_step_def hit_exchange_claimed)
    then show ?thesis unfolding f i e .
  next
    case (Some k)
    let ?ids' = "if k \<in> set ?ids then ?ids else ?ids @ [k]"
    have i: "claimed_exchange_ids (hs @ [h]) = ?ids'"
      using Some by (simp add: claimed_exchange_ids_snoc)
    have new: "k \<notin> set ?ids \<Longrightarrow> entry_of boost hs k = new_entry k"
      using entry_of_none[OF not_reached] .
    have "hit_step boost ?m h = update_entry (ensure_entry ?m k) k (hit_update boost h)"
      using Some by (simp add: hit_step_def hit_exchange_claimed)
    also have "\<dots> = map (\<lambda>x. (x, if x = k then hit_update boost h (entry_of boost hs x)
                                     else entry_of boost hs x)) ?ids'"
      using update_ensure_map[of k ?ids "entry_of boost hs" "hit_update boost h", OF new] .
    also have "\<dots> = map (\<lambda>x. (x, entry_of boost (hs @ [h]) x)) ?ids'"
    proof (rule map_cong[OF refl])
      fix x
      show "(x, if x = k then hit_update boost h (entry_of boost hs x) else entry_of boost hs x)
              = (x, entry_of boost (hs @ [h]) x)"
      proof (cases "x = k")
        case True
        then show ?thesis using entry_of_hit[OF Some, of boost hs] by simp
      next
        case False
        then have "claimed_exchange h \<noteq> Some x" using Some by simp
        from entry_of_other[OF this, of boost hs] False show ?thesis by simp
      qed
    qed
    finally show ?thesis unfolding f i .
  qed
qed


subsection \<open>Defaults and results\<close>

lemma tenth: "binary64_round (1 / 10) = 3602879701896397 / 36028797018963968"
  by code_simp

lemma or_string_main_nonempty: "or_string agentId ''main'' \<noteq> []"
  by (simp add: or_string_def split: option.splits)

lemma least_pos: "1 \<le> minSharedEntities config"
  by (simp add: minSharedEntities_def or_nat_def split: option.splits)

lemma to_result_entry_of: "to_result (entry_of boost hs x) = claimed_result boost hs x"
  by (simp add: to_result_def entry_of_def claimed_result_def length_firsts)

lemma kept_results:
  "map to_result (filter (\<lambda>e. least \<le> length (sharedEntities e)) (map (entry_of boost hs) ids))
     = filter (\<lambda>r. least \<le> sharedEntityCount r) (map (claimed_result boost hs) ids)"
proof (induction ids)
  case Nil
  show ?case by simp
next
  case (Cons x ids)
  have "length (sharedEntities (entry_of boost hs x)) = sharedEntityCount (claimed_result boost hs x)"
    by (simp add: entry_of_def claimed_result_def length_firsts)
  with Cons.IH show ?case by (simp add: to_result_entry_of)
qed

lemma claimed_search_expand:
  "claimed_search config st extracted gazetteered agentId limit =
     \<lparr>exchanges =
        take (or_nat limit (maxResults config))
          (sort_key (\<lambda>r. - r_score r)
             (filter (\<lambda>r. minSharedEntities config \<le> sharedEntityCount r)
                (map (claimed_result (cooccurrenceBoost config)
                        (claimed_hits st (or_string agentId ''main'')
                           (claimed_entities extracted gazetteered)))
                   (claimed_exchange_ids
                      (claimed_hits st (or_string agentId ''main'')
                         (claimed_entities extracted gazetteered)))))),
      result_entities = claimed_entities extracted gazetteered\<rparr>"
  by (simp only: claimed_search_def Let_def minSharedEntities_def maxResults_def
      cooccurrenceBoost_def tenth or_nat_def or_real_def or_string_def)

lemma search_claimed:
  "search config st extracted gazetteered agentId limit
     = claimed_search config st extracted gazetteered agentId limit"
proof -
  define aid where "aid = or_string agentId ''main''"
  define es where "es = claimed_entities extracted gazetteered"
  define boost where "boost = cooccurrenceBoost config"
  define hs where "hs = claimed_hits st aid es"
  have ne: "aid \<noteq> []" unfolding aid_def by (rule or_string_main_nonempty)
  have scores: "exchangeScores config st aid es
                  = map (\<lambda>x. (x, entry_of boost hs x)) (claimed_exchange_ids hs)"
    unfolding exchangeScores_hits all_hits_claimed[OF ne] boost_def hs_def
    by (rule foldl_hit_step)
  have entries: "map snd (exchangeScores config st aid es)
                   = map (entry_of boost hs) (claimed_exchange_ids hs)"
    unfolding scores by (simp add: o_def)
  have results:
    "map to_result (filter (\<lambda>entry. minSharedEntities config \<le> length (sharedEntities entry))
                      (map snd (exchangeScores config st aid es)))
       = filter (\<lambda>r. minSharedEntities config \<le> sharedEntityCount r)
           (map (claimed_result boost hs) (claimed_exchange_ids hs))"
    unfolding entries by (rule kept_results)
  have c: "claimed_search config st extracted gazetteered agentId limit =
     \<lparr>exchanges =
        take (or_nat limit (maxResults config))
          (sort_key (\<lambda>r. - r_score r)
             (filter (\<lambda>r. minSharedEntities config \<le> sharedEntityCount r)
                (map (claimed_result boost hs) (claimed_exchange_ids hs)))),
      result_entities = es\<rparr>"
    unfolding boost_def hs_def es_def aid_def by (rule claimed_search_expand)
  show ?thesis
  proof (cases "es = []")
    case True
    have h0: "hs = []" unfolding hs_def True by (simp add: claimed_hits_def)
    have "merged_entities extracted gazetteered = []"
      using True unfolding merged_entities_claimed es_def .
    then have "search config st extracted gazetteered agentId limit
                 = \<lparr>exchanges = [], result_entities = []\<rparr>"
      by (simp add: search_def Let_def)
    moreover have "claimed_search config st extracted gazetteered agentId limit
                 = \<lparr>exchanges = [], result_entities = []\<rparr>"
      unfolding c h0 True by (simp add: claimed_exchange_ids_def List.map_filter_def)
    ultimately show ?thesis by simp
  next
    case False
    have m: "merged_entities extracted gazetteered = es"
      unfolding merged_entities_claimed es_def ..
    have "search config st extracted gazetteered agentId limit
            = \<lparr>exchanges = take (or_nat limit (maxResults config))
                 (sort_by_score (map to_result
                    (filter (\<lambda>entry. minSharedEntities config \<le> length (sharedEntities entry))
                       (map snd (exchangeScores config st aid es))))),
               result_entities = es\<rparr>"
      using False unfolding aid_def by (simp add: search_def Let_def m)
    then show ?thesis unfolding results sort_by_score_def c .
  qed
qed

lemma direct_hit:
  assumes "1 \<le> card (set (claimed_names hs x))"
  shows "\<exists>n t. Direct n t \<in> set hs \<and> source_exchange_id t = Some x"
proof -
  from assms have "set (claimed_names hs x) \<noteq> {}" by auto
  then obtain h where h: "h \<in> set (claimed_hits_of hs x)" "claimed_name h \<noteq> []"
    by (auto simp: claimed_names_def)
  from h(2) obtain n t where d: "h = Direct n t" by (cases h) simp_all
  from h(1) have i: "h \<in> set hs" and e: "claimed_exchange h = Some x"
    by (simp_all add: claimed_hits_of_def)
  from e have "source_exchange_id t = Some x"
    unfolding d by (simp add: claimed_exchange_def split: option.splits if_splits)
  with i d show ?thesis by blast
qed

text \<open>
  Claim C1. \<open>search\<close> is the search of the description, \<open>claimed_search\<close>: the entity
  list is the extracted mentions followed by the gazetteer matches with a name not met
  before (names compared in lower case, the first occurrence winning), and it is returned
  whole. Every triple with a \<open>source_exchange_id\<close> among the up to 100 triples that
  \<open>getTriplesFor\<close> returns for a query entity adds its confidence (1 when that is 0) to the
  score of its exchange and the lower-cased name of the entity to the shared entities of
  the exchange; every such triple among the up to 20 triples of one of the 5 top
  co-occurring entities of a query entity adds the boost (the number nearest to 0.1
  unless configured) times the co-occurrence count to the score, and nothing to the shared
  entities or to the largest confidence. The additions are those of binary64 numbers, made
  in the order of the hits. An exchange with fewer distinct shared entities than
  \<open>minSharedEntities\<close> (1 unless configured, never less) is left out, so every exchange
  returned has a direct hit, and one reached through co-occurrences only is never
  returned. The rest is sorted by descending score and cut to \<open>limit\<close> (\<open>maxResults\<close>
  unless given, itself 20 unless configured).
\<close>

theorem search_scores:
  "(let aid = (case agentId of None \<Rightarrow> ''main'' | Some a \<Rightarrow> if a = [] then ''main'' else a);
        hs = claimed_hits st aid (claimed_entities extracted gazetteered);
        res = search config st extracted gazetteered agentId limit
    in res = claimed_search config st extracted gazetteered agentId limit
     \<and> result_entities res = claimed_entities extracted gazetteered
     \<and> sorted (map (\<lambda>r. - r_score r) (exchanges res))
     \<and> (\<forall>r \<in> set (exchanges res).
           1 \<le> sharedEntityCount r
           \<and> (\<exists>n t. Direct n t \<in> set hs \<and> source_exchange_id t = Some (r_id r))))"
proof -
  define hs where "hs = claimed_hits st (or_string agentId ''main'')
                          (claimed_entities extracted gazetteered)"
  define res where "res = search config st extracted gazetteered agentId limit"
  define kept where "kept = filter (\<lambda>r. minSharedEntities config \<le> sharedEntityCount r)
                              (map (claimed_result (cooccurrenceBoost config) hs)
                                 (claimed_exchange_ids hs))"
  have a: "(case agentId of None \<Rightarrow> ''main'' | Some a \<Rightarrow> if a = [] then ''main'' else a)
             = or_string agentId ''main''"
    by (simp add: or_string_def)
  have 1: "res = claimed_search config st extracted gazetteered agentId limit"
    unfolding res_def by (rule search_claimed)
  have x: "res = \<lparr>exchanges = take (or_nat limit (maxResults config))
                                 (sort_key (\<lambda>r. - r_score r) kept),
                  result_entities = claimed_entities extracted gazetteered\<rparr>"
    unfolding 1 kept_def hs_def by (rule claimed_search_expand)
  have 2: "result_entities res = claimed_entities extracted gazetteered"
    unfolding x by simp
  have e: "exchanges res = take (or_nat limit (maxResults config))
                             (sort_key (\<lambda>r. - r_score r) kept)"
    unfolding x by simp
  have "sorted (map (\<lambda>r. - r_score r) (sort_key (\<lambda>r. - r_score r) kept))"
    by (rule sorted_sort_key)
  then have 3: "sorted (map (\<lambda>r. - r_score r) (exchanges res))"
    unfolding e take_map[symmetric] by (rule sorted_wrt_take)
  have 4: "\<forall>r \<in> set (exchanges res).
           1 \<le> sharedEntityCount r
           \<and> (\<exists>n t. Direct n t \<in> set hs \<and> source_exchange_id t = Some (r_id r))"
  proof
    fix r assume "r \<in> set (exchanges res)"
    then have "r \<in> set (sort_key (\<lambda>r. - r_score r) kept)"
      unfolding e by (rule in_set_takeD)
    then have k: "r \<in> set kept" by simp
    then obtain y where y: "r = claimed_result (cooccurrenceBoost config) hs y"
      unfolding kept_def by auto
    from k have "minSharedEntities config \<le> sharedEntityCount r" unfolding kept_def by simp
    with least_pos[of config] have c: "1 \<le> sharedEntityCount r" by simp
    have i: "r_id r = y" "sharedEntityCount r = card (set (claimed_names hs y))"
      unfolding y by (simp_all add: claimed_result_def)
    from c have "1 \<le> card (set (claimed_names hs y))" unfolding i .
    from direct_hit[OF this] c
    show "1 \<le> sharedEntityCount r
           \<and> (\<exists>n t. Direct n t \<in> set hs \<and> source_exchange_id t = Some (r_id r))"
      unfolding i(1) by simp
  qed
  show ?thesis
    unfolding Let_def a
    using 1 2 3 4 unfolding res_def hs_def
    by (intro conjI) assumption+
qed

lemma search_example_defaults:
  "claimed_search default_config search_store [alice_mention] [] None None =
     \<lparr>exchanges =
        [\<lparr>r_id = ''E1'', r_score = 1, sharedEntityCount = 1, r_sharedEntities = [''alice''],
          r_maxConfidence = 3602879701896397 / 4503599627370496,
          r_date = Some ''2024-01-01''\<rparr>,
         \<lparr>r_id = ''E3'', r_score = 1 / 2, sharedEntityCount = 1, r_sharedEntities = [''alice''],
          r_maxConfidence = 1 / 2, r_date = Some ''2024-01-05''\<rparr>],
      result_entities = [alice_mention]\<rparr>"
  by code_simp

lemma search_example_threshold:
  "claimed_search strict_config search_store [alice_mention]
       [alice_capitals, paris_mention, paris_small] None None =
     \<lparr>exchanges =
        [\<lparr>r_id = ''E1'', r_score = 2, sharedEntityCount = 2,
          r_sharedEntities = [''alice'', ''paris''],
          r_maxConfidence = 3602879701896397 / 4503599627370496,
          r_date = Some ''2024-01-01''\<rparr>],
      result_entities = [alice_mention, paris_mention]\<rparr>"
  by code_simp

lemma search_example_rounding:
  "claimed_search default_config rounding_store [alice_mention] [] None (Some 1) =
     \<lparr>exchanges =
        [\<lparr>r_id = ''F1'', r_score = 1351079888211149 / 4503599627370496, sharedEntityCount = 1,
          r_sharedEntities = [''alice''],
          r_maxConfidence = 3602879701896397 / 18014398509481984,
          r_date = Some ''2024-02-02''\<rparr>],
      result_entities = [alice_mention]\<rparr>"
  by code_simp

lemma search_example_ties:
  "claimed_search tuned_config tie_store [alice_mention] [carol_mention] None None =
     \<lparr>exchanges =
        [\<lparr>r_id = ''G3'', r_score = 2, sharedEntityCount = 1, r_sharedEntities = [''carol''],
          r_maxConfidence = 1, r_date = Some ''2024-03-03''\<rparr>,
         \<lparr>r_id = ''G1'', r_score = 2, sharedEntityCount = 1, r_sharedEntities = [''carol''],
          r_maxConfidence = 1, r_date = Some ''2024-03-01''\<rparr>],
      result_entities = [alice_mention, carol_mention]\<rparr>"
  by code_simp

lemma search_example_reads:
  "map tid (getTriplesByNormalizedId tie_store ''x'' (Some ''main'') (Some 20)) = [3, 1, 2]"
  "confidence third_row < 1351079888211149 / 4503599627370496"
  "confidence tenth_row = 3602879701896397 / 36028797018963968"
  "confidence fifth_row = 3602879701896397 / 18014398509481984"
  by code_simp+

theorem search_witness:
  "search default_config search_store [alice_mention] [] None None =
     \<lparr>exchanges =
        [\<lparr>r_id = ''E1'', r_score = 1, sharedEntityCount = 1, r_sharedEntities = [''alice''],
          r_maxConfidence = 3602879701896397 / 4503599627370496,
          r_date = Some ''2024-01-01''\<rparr>,
         \<lparr>r_id = ''E3'', r_score = 1 / 2, sharedEntityCount = 1, r_sharedEntities = [''alice''],
          r_maxConfidence = 1 / 2, r_date = Some ''2024-01-05''\<rparr>],
      result_entities = [alice_mention]\<rparr>
   \<and> search strict_config search_store [alice_mention]
         [alice_capitals, paris_mention, paris_small] None None =
     \<lparr>exchanges =
        [\<lparr>r_id = ''E1'', r_score = 2, sharedEntityCount = 2,
          r_sharedEntities = [''alice'', ''paris''],
          r_maxConfidence = 3602879701896397 / 4503599627370496,
          r_date = Some ''2024-01-01''\<rparr>],
      result_entities = [alice_mention, paris_mention]\<rparr>
   \<and> search default_config rounding_store [alice_mention] [] None (Some 1) =
     \<lparr>exchanges =
        [\<lparr>r_id = ''F1'', r_score = 1351079888211149 / 4503599627370496, sharedEntityCount = 1,
          r_sharedEntities = [''alice''],
          r_maxConfidence = 3602879701896397 / 18014398509481984,
          r_date = Some ''2024-02-02''\<rparr>],
      result_entities = [alice_mention]\<rparr>
   \<and> confidence third_row < 1351079888211149 / 4503599627370496
   \<and> search tuned_config tie_store [alice_mention] [carol_mention] None None =
     \<lparr>exchanges =
        [\<lparr>r_id = ''G3'', r_score = 2, sharedEntityCount = 1, r_sharedEntities = [''carol''],
          r_maxConfidence = 1, r_date = Some ''2024-03-03''\<rparr>,
         \<lparr>r_id = ''G1'', r_score = 2, sharedEntityCount = 1, r_sharedEntities = [''carol''],
          r_maxConfidence = 1, r_date = Some ''2024-03-01''\<rparr>],
      result_entities = [alice_mention, carol_mention]\<rparr>
   \<and> map tid (getTriplesByNormalizedId tie_store ''x'' (Some ''main'') (Some 20)) = [3, 1, 2]"
proof -
  note t1 = search_scores[where config = default_config and st = search_store
      and extracted = "[alice_mention]" and gazetteered = "[]" and agentId = None
      and limit = None, unfolded Let_def, THEN conjunct1]
  note t2 = search_scores[where config = strict_config and st = search_store
      and extracted = "[alice_mention]"
      and gazetteered = "[alice_capitals, paris_mention, paris_small]" and agentId = None
      and limit = None, unfolded Let_def, THEN conjunct1]
  note t3 = search_scores[where config = default_config and st = rounding_store
      and extracted = "[alice_mention]" and gazetteered = "[]" and agentId = None
      and limit = "Some 1", unfolded Let_def, THEN conjunct1]
  note t4 = search_scores[where config = tuned_config and st = tie_store
      and extracted = "[alice_mention]" and gazetteered = "[carol_mention]" and agentId = None
      and limit = None, unfolded Let_def, THEN conjunct1]
  show ?thesis
    unfolding t1 t2 t3 t4
    using search_example_defaults search_example_threshold search_example_rounding
      search_example_ties search_example_reads(1) search_example_reads(2)
    by (intro conjI) assumption+
qed

end
